theory Spec2Isabelle
  imports Complex_Main
begin

section \<open>Numbers of the host language\<close>

text \<open>
  Frame positions are JavaScript numbers. The clip stores the literal \<open>NaN\<close> in
  \<open>_prevPos\<close> (in \<open>_goto\<close>), and \<open>currentFrame %= this._totalFrames\<close> yields
  \<open>NaN\<close> for a clip of zero frames, so \<open>NaN\<close> is a value of the model. Every other
  frame number is taken to be an integer. Comparisons with \<open>NaN\<close> are false and
  arithmetic on \<open>NaN\<close> gives \<open>NaN\<close>, as in the host language.
\<close>

datatype jsnum = NaN | Num int

fun js_lt :: "jsnum \<Rightarrow> jsnum \<Rightarrow> bool" where
  "js_lt (Num a) (Num b) = (a < b)"
| "js_lt _ _ = False"

fun js_ge :: "jsnum \<Rightarrow> jsnum \<Rightarrow> bool" where
  "js_ge (Num a) (Num b) = (a \<ge> b)"
| "js_ge _ _ = False"

fun js_le :: "jsnum \<Rightarrow> jsnum \<Rightarrow> bool" where
  "js_le (Num a) (Num b) = (a \<le> b)"
| "js_le _ _ = False"

fun js_eq :: "jsnum \<Rightarrow> jsnum \<Rightarrow> bool" where
  "js_eq (Num a) (Num b) = (a = b)"
| "js_eq _ _ = False"

fun js_add :: "jsnum \<Rightarrow> jsnum \<Rightarrow> jsnum" where
  "js_add (Num a) (Num b) = Num (a + b)"
| "js_add _ _ = NaN"

fun js_sub :: "jsnum \<Rightarrow> jsnum \<Rightarrow> jsnum" where
  "js_sub (Num a) (Num b) = Num (a - b)"
| "js_sub _ _ = NaN"

text \<open>
  The remainder operator \<open>%\<close> truncates towards zero (the result has the sign of the
  dividend) and gives \<open>NaN\<close> for a zero divisor.
\<close>

fun js_rem :: "jsnum \<Rightarrow> jsnum \<Rightarrow> jsnum" where
  "js_rem (Num a) (Num b) = (if b = 0 then NaN else Num (sgn a * (\<bar>a\<bar> mod \<bar>b\<bar>)))"
| "js_rem _ _ = NaN"

section \<open>The action table and the action loop of \<open>_setTimelinePosition\<close>\<close>

text \<open>
  \<open>_actions\<close> is a sparse array indexed by frame: a hole (\<open>undefined\<close>) is \<open>None\<close>,
  a registered list of callbacks is \<open>Some\<close> of the list in registration order.
  A callback is opaque: it is identified by a number, and calling it is recorded as an
  event. Reading the array outside its bounds gives \<open>undefined\<close>.
\<close>

type_synonym callback = nat

type_synonym action_table = "callback list option list"

definition actions_at :: "action_table \<Rightarrow> int \<Rightarrow> callback list option" where
  "actions_at acts i = (if 0 \<le> i \<and> i < int (length acts) then acts ! nat i else None)"

text \<open>The calls made for frame \<open>i\<close>: the inner \<open>for (j = 0; j < frameActions.length; ++j)\<close>.\<close>

definition frameCalls :: "action_table \<Rightarrow> int \<Rightarrow> (int \<times> callback) list" where
  "frameCalls acts i = (case actions_at acts i of None \<Rightarrow> [] | Some frameActions \<Rightarrow> map (Pair i) frameActions)"

text \<open>
  The loop \<open>for (i = startFrame, length = ...; i < length; ++i)\<close> with its body: the calls
  of frame \<open>i\<close>, then the wrap step \<open>if (needsLoop && i == length - 1)\<close>, which sets
  \<open>i = 0\<close>, \<open>length = currentFrame + 1\<close> and clears \<open>needsLoop\<close>, and then the
  increment \<open>++i\<close> of the loop header. Here \<open>acts\<close> is \<open>this._actions\<close>, \<open>cur\<close> the
  parameter \<open>currentFrame\<close> and \<open>len\<close> the variable \<open>length\<close>.
\<close>

function actionLoop :: "action_table \<Rightarrow> int \<Rightarrow> bool \<Rightarrow> int \<Rightarrow> int \<Rightarrow> (int \<times> callback) list" where
  "actionLoop acts cur needsLoop i len =
     (if i < len then
        frameCalls acts i @
        (if needsLoop \<and> i = len - 1
         then actionLoop acts cur False (0 + 1) (cur + 1)
         else actionLoop acts cur needsLoop (i + 1) len)
      else [])"
  by pat_completeness auto
termination
  by (relation "measures [\<lambda>(a, c, nl, i, len). if nl then 1 else 0, \<lambda>(a, c, nl, i, len). nat (len - i)]") auto

declare actionLoop.simps [simp del]

text \<open>
  The block \<open>if (doActions) { ... }\<close> up to the loop, for the parameters \<open>startFrame\<close>
  (\<open>start\<close>) and \<open>currentFrame\<close> (\<open>cur\<close>). \<open>needsLoop\<close> is set when
  \<open>currentFrame < startFrame\<close>. The two assignments to \<open>length\<close> before the loop are
  overwritten by the initialiser of the loop, \<open>length = Math.min(currentFrame + 1, actions.length)\<close>,
  which is therefore the bound the loop starts with. When \<open>startFrame\<close> or
  \<open>currentFrame\<close> is \<open>NaN\<close> the test \<open>i < length\<close> is false at once.
\<close>

definition fireActions :: "action_table \<Rightarrow> jsnum \<Rightarrow> jsnum \<Rightarrow> (int \<times> callback) list" where
  "fireActions acts start cur =
     (case (start, cur) of
        (Num s, Num c) \<Rightarrow> actionLoop acts c (c < s) s (min (c + 1) (int (length acts)))
      | _ \<Rightarrow> [])"

section \<open>The clip and the display tree\<close>

text \<open>
  Objects are shared and mutated in place (a parent writes its child's \<open>_synchOffset\<close>
  and then calls the child's \<open>_updateTimeline\<close>), so the model keeps a store from
  object references to objects. Calls that leave the clip (a tween's \<open>setPosition\<close>,
  \<open>addChild\<close>, \<open>removeChild\<close>, an action callback) are recorded, in order, in a trace.
  A callback is assumed not to call back into the clips.
\<close>

type_synonym ref = nat

datatype mode = INDEPENDENT | SINGLE_FRAME | SYNCHED

text \<open>
  Modelled from the spec: the classes \<open>Timeline\<close> and \<open>Tween\<close> of the repository are not
  among the sources read here. A timeline is "an ordered sequence of tween segments for
  one target" that "exposes segment boundaries and a position setter". Only the bounds of
  a segment are read by the clip; a call of the position setter is recorded in the trace.
\<close>

record tween =
  startFrame :: int
  endFrame :: int

record timeline =
  target :: ref
  tweens :: "tween list"

text \<open>
  An element of \<open>_timedChildTimelines\<close>: an array of booleans indexed by frame, with a
  \<open>target\<close> property. \<open>addTimedChild\<close> leaves no hole in it.
\<close>

record timedChildTimeline =
  tc_target :: ref
  tc_frames :: "bool list"

text \<open>
  The fields of a display object that the modelled methods read or write. The fields
  with a leading underscore in the source are written without it, and \<open>_t\<close> under the
  name of its accessor \<open>elapsedTime\<close>. \<open>mode\<close> is \<open>None\<close> for a display object that is
  not a clip (its \<open>mode\<close> is \<open>undefined\<close>). \<open>parentStartPosition\<close> is \<open>None\<close> while
  \<open>undefined\<close>. \<open>elapsedTime\<close> is \<open>None\<close> for \<open>NaN\<close>; times are exact rationals, the
  rounding of the host's floating point is not modelled. \<open>labelDict name\<close> is the value
  of \<open>this._labelDict[name]\<close>, \<open>None\<close> when that is \<open>undefined\<close> or \<open>null\<close>. The fields
  used only by the clock (\<open>loop\<close>, \<open>selfAdvance\<close>, \<open>_duration\<close>, \<open>_labels\<close>) are left
  out.
\<close>

record movieclip =
  mode :: "mode option"
  startPosition :: int
  currentFrame :: jsnum
  labelDict :: "string \<Rightarrow> int option"
  paused :: bool
  actionsEnabled :: bool
  autoReset :: bool
  synchOffset :: jsnum
  prevPos :: jsnum
  elapsedTime :: "rat option"
  framerate :: rat
  totalFrames :: nat
  timelines :: "timeline list"
  timedChildTimelines :: "timedChildTimeline list"
  actions :: action_table
  parent :: "ref option"
  children :: "ref list"
  parentStartPosition :: "int option"

datatype event =
    SetPosition ref ref nat jsnum
  | AddChild ref ref
  | RemoveChild ref ref
  | CallAction ref int callback

text \<open>
  \<open>SetPosition c t j f\<close>: clip \<open>c\<close> called \<open>setPosition(f)\<close> on tween \<open>j\<close> of the timeline of
  target \<open>t\<close>. \<open>AddChild c t\<close> and \<open>RemoveChild c t\<close>: clip \<open>c\<close> called \<open>this.addChild(t)\<close>,
  \<open>this.removeChild(t)\<close>. \<open>CallAction c i cb\<close>: clip \<open>c\<close> called the callback \<open>cb\<close> of its
  frame \<open>i\<close>.
\<close>

record world =
  heap :: "ref \<Rightarrow> movieclip"
  trace :: "event list"

text \<open>
  A method call ends normally, throws, or exceeds the call depth it was given (the
  recursion of \<open>_updateTimeline\<close> through the children need not end when the parent
  links form a cycle). The world reached is returned in every case.
\<close>

datatype exn = TypeError

datatype status = Done | Throw exn | OutOfFuel

definition emit :: "event list \<Rightarrow> world \<Rightarrow> world" where
  "emit es w = w\<lparr>trace := trace w @ es\<rparr>"

definition modify :: "ref \<Rightarrow> (movieclip \<Rightarrow> movieclip) \<Rightarrow> world \<Rightarrow> world" where
  "modify r f w = w\<lparr>heap := (heap w)(r := f (heap w r))\<rparr>"

subsection \<open>The constructor\<close>

record options =
  o_mode :: mode
  o_startPosition :: int
  o_labels :: "string \<Rightarrow> int option"
  o_duration :: nat
  o_framerate :: rat

definition defaults :: options where
  "defaults = \<lparr>o_mode = INDEPENDENT, o_startPosition = 0, o_labels = (\<lambda>_. None), o_duration = 0, o_framerate = 0\<rparr>"

text \<open>
  The state the constructor leaves when it is called with an options object whose
  \<open>labels\<close> map names to frames and whose \<open>duration\<close> is a frame count. The setter of
  \<open>framerate\<close>, called when \<open>options.framerate\<close> is truthy, stores the value when it is
  positive and \<open>0\<close> otherwise.
\<close>

definition MovieClip :: "options \<Rightarrow> movieclip" where
  "MovieClip opts =
     \<lparr>mode = Some (o_mode opts), startPosition = o_startPosition opts, currentFrame = Num 0,
      labelDict = o_labels opts, paused = False, actionsEnabled = True, autoReset = True,
      synchOffset = Num 0, prevPos = Num (- 1), elapsedTime = Some 0,
      framerate = (if o_framerate opts > 0 then o_framerate opts else 0),
      totalFrames = o_duration opts, timelines = [], timedChildTimelines = [], actions = [],
      parent = None, children = [], parentStartPosition = None\<rparr>"

subsection \<open>The display-tree primitive\<close>

text \<open>
  Modelled from the spec: the display-tree primitive (attach, detach, the children and the
  parent back-reference) is \<open>Container.addChild\<close> and \<open>Container.removeChild\<close> of the
  display library, which is not part of the sources. \<open>addChild\<close> takes the child from its
  former parent, sets its \<open>parent\<close> and appends it to \<open>children\<close>; \<open>removeChild\<close> does
  nothing when the object is not among \<open>children\<close>, otherwise clears its \<open>parent\<close> and
  takes it out of \<open>children\<close>.
\<close>

definition takeOut :: "ref \<Rightarrow> ref \<Rightarrow> world \<Rightarrow> world" where
  "takeOut this child w =
     (if child \<in> set (children (heap w this))
      then modify this (\<lambda>m. m\<lparr>children := remove1 child (children m)\<rparr>)
             (modify child (\<lambda>m. m\<lparr>parent := None\<rparr>) w)
      else w)"

definition removeChild :: "ref \<Rightarrow> ref \<Rightarrow> world \<Rightarrow> world" where
  "removeChild this child w = takeOut this child (emit [RemoveChild this child] w)"

definition addChild :: "ref \<Rightarrow> ref \<Rightarrow> world \<Rightarrow> world" where
  "addChild this child w =
     (let w0 = emit [AddChild this child] w;
          w1 = (case parent (heap w0 child) of None \<Rightarrow> w0 | Some q \<Rightarrow> takeOut q child w0);
          w2 = modify child (\<lambda>m. m\<lparr>parent := Some this\<rparr>) w1
      in modify this (\<lambda>m. m\<lparr>children := children m @ [child]\<rparr>) w2)"

subsection \<open>\<open>_reset\<close>\<close>

definition reset :: "ref \<Rightarrow> world \<Rightarrow> world" where
  "reset this w = modify this (\<lambda>m. m\<lparr>prevPos := Num (- 1), elapsedTime := Some 0, currentFrame := Num 0\<rparr>) w"

subsection \<open>\<open>_setTimelinePosition\<close>\<close>

text \<open>
  The tween loop. For each timeline, from the last to the first, the tweens are scanned
  from index \<open>0\<close>; the first one whose bounds contain the frame gets \<open>setPosition\<close> and
  the scan of that timeline stops.
\<close>

fun findTween :: "tween list \<Rightarrow> jsnum \<Rightarrow> nat \<Rightarrow> nat option" where
  "findTween [] cur j = None"
| "findTween (tw # tws) cur j =
     (if js_ge cur (Num (startFrame tw)) \<and> js_le cur (Num (endFrame tw)) then Some j
      else findTween tws cur (Suc j))"

definition tweenCalls :: "ref \<Rightarrow> timeline list \<Rightarrow> jsnum \<Rightarrow> event list" where
  "tweenCalls this tls cur =
     concat (map (\<lambda>tline. case findTween (tweens tline) cur 0 of
                          None \<Rightarrow> []
                        | Some j \<Rightarrow> [SetPosition this (target tline) j cur]) (rev tls))"

text \<open>
  The loop over \<open>_timedChildTimelines\<close>. \<open>shouldBeChild\<close> is the array element at the
  frame, \<open>undefined\<close> (falsy) outside the array and at \<open>NaN\<close>.
\<close>

definition shouldBeChild :: "bool list \<Rightarrow> jsnum \<Rightarrow> bool" where
  "shouldBeChild frames cur =
     (case cur of NaN \<Rightarrow> False | Num c \<Rightarrow> 0 \<le> c \<and> c < int (length frames) \<and> frames ! nat c)"

definition timedChild :: "ref \<Rightarrow> jsnum \<Rightarrow> timedChildTimeline \<Rightarrow> world \<Rightarrow> world" where
  "timedChild this cur tline w =
     (let tgt = tc_target tline; sbc = shouldBeChild (tc_frames tline) cur in
      if sbc \<and> parent (heap w tgt) \<noteq> Some this then
        (let w1 = addChild this tgt w in
         if mode (heap w1 tgt) = Some INDEPENDENT \<and> autoReset (heap w1 tgt) then reset tgt w1 else w1)
      else if \<not> sbc \<and> parent (heap w tgt) = Some this then removeChild this tgt w
      else w)"

fun timedChildren :: "ref \<Rightarrow> jsnum \<Rightarrow> timedChildTimeline list \<Rightarrow> world \<Rightarrow> world" where
  "timedChildren this cur [] w = w"
| "timedChildren this cur (tline # tls) w = timedChildren this cur tls (timedChild this cur tline w)"

text \<open>
  The loop over the children, \<open>for (i = 0, length = children.length; i < length; ++i)\<close>.
  \<open>length\<close> is read once, the array \<open>children\<close> is the live one: when a nested call has
  shortened it, \<open>children[i]\<close> is \<open>undefined\<close> and \<open>child.mode\<close> throws. \<open>upd\<close> is the
  method \<open>_updateTimeline\<close> of the child.
\<close>

definition setSynchOffset :: "jsnum \<Rightarrow> movieclip \<Rightarrow> movieclip" where
  "setSynchOffset cur m =
     m\<lparr>synchOffset := js_sub cur (case parentStartPosition m of None \<Rightarrow> NaN | Some p \<Rightarrow> Num p)\<rparr>"

function syncChildren :: "(ref \<Rightarrow> world \<Rightarrow> status \<times> world) \<Rightarrow> ref \<Rightarrow> jsnum \<Rightarrow> nat \<Rightarrow> nat \<Rightarrow> world \<Rightarrow> status \<times> world" where
  "syncChildren upd this cur i len w =
     (if i < len then
        (if i < length (children (heap w this)) then
           (let child = children (heap w this) ! i in
            if mode (heap w child) = Some SYNCHED then
              (case upd child (modify child (setSynchOffset cur) w) of
                 (Done, w') \<Rightarrow> syncChildren upd this cur (Suc i) len w'
               | r \<Rightarrow> r)
            else syncChildren upd this cur (Suc i) len w)
         else (Throw TypeError, w))
      else (Done, w))"
  by pat_completeness auto
termination
  by (relation "measure (\<lambda>(upd, this, cur, i, len, w). len - i)") auto

declare syncChildren.simps [simp del]

definition actionCalls :: "ref \<Rightarrow> action_table \<Rightarrow> jsnum \<Rightarrow> jsnum \<Rightarrow> event list" where
  "actionCalls this acts start cur = map (\<lambda>(i, cb). CallAction this i cb) (fireActions acts start cur)"

definition setTimelinePosition :: "(ref \<Rightarrow> world \<Rightarrow> status \<times> world) \<Rightarrow> ref \<Rightarrow> jsnum \<Rightarrow> jsnum \<Rightarrow> bool \<Rightarrow> world \<Rightarrow> status \<times> world" where
  "setTimelinePosition upd this start cur doActions w =
     (let w1 = emit (tweenCalls this (timelines (heap w this)) cur) w;
          w2 = timedChildren this cur (timedChildTimelines (heap w1 this)) w1
      in case syncChildren upd this cur 0 (length (children (heap w2 this))) w2 of
           (Done, w3) \<Rightarrow>
             (Done, if doActions then emit (actionCalls this (actions (heap w3 this)) start cur) w3 else w3)
         | r \<Rightarrow> r)"

subsection \<open>\<open>_updateTimeline\<close>\<close>

text \<open>
  The first argument bounds the depth of the nested calls of \<open>_updateTimeline\<close>.
\<close>

definition deriveFrame :: "movieclip \<Rightarrow> movieclip" where
  "deriveFrame m =
     (let cf = js_add (Num (startPosition m)) (if mode m = Some SINGLE_FRAME then Num 0 else synchOffset m)
      in m\<lparr>currentFrame := (if js_ge cf (Num (int (totalFrames m))) then js_rem cf (Num (int (totalFrames m))) else cf)\<rparr>)"

primrec updateTimeline :: "nat \<Rightarrow> ref \<Rightarrow> world \<Rightarrow> status \<times> world" where
  "updateTimeline 0 this w = (OutOfFuel, w)"
| "updateTimeline (Suc k) this w =
     (let synched = (mode (heap w this) \<noteq> Some INDEPENDENT);
          w1 = (if synched then modify this deriveFrame w else w);
          me = heap w1 this
      in if js_eq (prevPos me) (currentFrame me) then (Done, w1)
         else
           (case setTimelinePosition (updateTimeline k) this
                   (if js_lt (prevPos me) (Num 0) then Num 0 else prevPos me)
                   (currentFrame me)
                   (if synched then False else actionsEnabled me) w1 of
              (Done, w2) \<Rightarrow> (Done, modify this (\<lambda>m. m\<lparr>prevPos := currentFrame m\<rparr>) w2)
            | r \<Rightarrow> r))"

subsection \<open>Seeking\<close>

datatype positionOrLabel = Position jsnum | Label string

definition goto :: "nat \<Rightarrow> ref \<Rightarrow> positionOrLabel \<Rightarrow> world \<Rightarrow> status \<times> world" where
  "goto k this positionOrLabel w =
     (case (case positionOrLabel of
              Label l \<Rightarrow> map_option Num (labelDict (heap w this) l)
            | Position p \<Rightarrow> Some p) of
        None \<Rightarrow> (Done, w)
      | Some pos \<Rightarrow>
          updateTimeline k this
            (modify this (\<lambda>m. m\<lparr>prevPos := (if js_eq (prevPos m) (Num (- 1)) then NaN else prevPos m),
                                  currentFrame := pos,
                                  elapsedTime := (if framerate m > 0
                                                  then (case pos of NaN \<Rightarrow> None | Num p \<Rightarrow> Some (of_int p / framerate m))
                                                  else Some 0)\<rparr>) w))"


definition gotoAndStop :: "nat \<Rightarrow> ref \<Rightarrow> positionOrLabel \<Rightarrow> world \<Rightarrow> status \<times> world" where
  "gotoAndStop k this positionOrLabel w = goto k this positionOrLabel (modify this (\<lambda>m. m\<lparr>paused := True\<rparr>) w)"

subsection \<open>Registration\<close>

text \<open>
  \<open>addAction(callback, startFrame)\<close> for a frame index \<open>startFrame\<close>. Setting
  \<open>actions.length\<close> leaves holes in the new part of the array.
\<close>

definition addAction :: "callback \<Rightarrow> nat \<Rightarrow> movieclip \<Rightarrow> movieclip" where
  "addAction cb sf m =
     (let acts = (if length (actions m) \<le> sf
                  then actions m @ replicate (sf + 1 - length (actions m)) None
                  else actions m);
          tf = (if totalFrames m < sf then sf else totalFrames m)
      in m\<lparr>totalFrames := tf,
            actions := acts[sf := (case acts ! sf of Some frameActions \<Rightarrow> Some (frameActions @ [cb]) | None \<Rightarrow> Some [cb])]\<rparr>)"

text \<open>
  \<open>addTimedChild(instance, startFrame, duration)\<close>, called without the fourth argument, so
  that \<open>addKeyframes(instance, undefined)\<close> returns at once. \<open>None\<close> stands for an omitted
  (\<open>null\<close> or \<open>undefined\<close>) argument. The frames that \<open>timeline.length = ...\<close> adds are
  holes; those below \<open>startFrame\<close> are filled with \<open>false\<close> and the others are
  overwritten by the fill with \<open>true\<close> that follows.
\<close>

definition findTimeline :: "timedChildTimeline list \<Rightarrow> ref \<Rightarrow> nat option" where
  "findTimeline tls instance =
     (case filter (\<lambda>i. tc_target (tls ! i) = instance) (rev [0..<length tls]) of
        [] \<Rightarrow> None | i # _ \<Rightarrow> Some i)"

definition fillFrames :: "bool list \<Rightarrow> nat \<Rightarrow> nat \<Rightarrow> bool list" where
  "fillFrames old sf dur =
     (let extended = (if length old < sf + dur then old @ replicate (sf + dur - length old) False else old)
      in take sf extended @ replicate dur True @ drop (sf + dur) extended)"

definition addTimedChild :: "nat \<Rightarrow> ref \<Rightarrow> ref \<Rightarrow> nat option \<Rightarrow> nat option \<Rightarrow> world \<Rightarrow> status \<times> world" where
  "addTimedChild k this instance startFrameArg durationArg w =
     (let sf = (case startFrameArg of None \<Rightarrow> 0 | Some s \<Rightarrow> s);
          dflt = (if totalFrames (heap w this) = 0 then 1 else totalFrames (heap w this));
          dur = (case durationArg of None \<Rightarrow> dflt | Some d \<Rightarrow> if d < 1 then dflt else d);
          w1 = (if mode (heap w instance) = Some SYNCHED
                then modify instance (\<lambda>m. m\<lparr>parentStartPosition := Some (int sf)\<rparr>) w else w);
          tls = timedChildTimelines (heap w1 this);
          (tls1, i) = (case findTimeline tls instance of
                         Some i \<Rightarrow> (tls, i)
                       | None \<Rightarrow> (tls @ [\<lparr>tc_target = instance, tc_frames = []\<rparr>], length tls));
          tls2 = tls1[i := (tls1 ! i)\<lparr>tc_frames := fillFrames (tc_frames (tls1 ! i)) sf dur\<rparr>];
          w2 = modify this (\<lambda>m. m\<lparr>timedChildTimelines := tls2,
                                    totalFrames := (if totalFrames m < sf + dur then sf + dur else totalFrames m)\<rparr>) w1
      in setTimelinePosition (updateTimeline k) this (Num (int sf)) (currentFrame (heap w2 this)) True w2)"

section \<open>The decoder of compact keyframe strings in \<open>addKeyframes\<close>\<close>

text \<open>
  The block \<open>if (typeof keyframes == "string") { ... }\<close> of \<open>addKeyframes\<close>, which turns
  the string into the object \<open>result\<close>. The loop that follows it hands every entry of
  \<open>result\<close> to \<open>addTween\<close> and is not part of this development. Strings are lists of
  8-bit characters.
\<close>

subsection \<open>\<open>parseFloat\<close> and \<open>parseInt\<close>\<close>

text \<open>
  The two built-in functions read the longest prefix that is a number, after leading
  white space, and give \<open>NaN\<close> when there is none. A finite result of \<open>parseFloat\<close> is
  kept as the exact rational value of the decimal literal: the rounding to the host's
  floating point and the sign of zero are not modelled.
\<close>

datatype jsfloat = FNaN | FInfinity bool | Finite rat

definition isWhiteSpace :: "char \<Rightarrow> bool" where
  "isWhiteSpace c = (c \<in> set [CHR 0x09, CHR 0x0A, CHR 0x0B, CHR 0x0C, CHR 0x0D, CHR '' ''])"

definition digitValue :: "char \<Rightarrow> nat option" where
  "digitValue c = map_of (zip ''0123456789'' [0..<10]) c"

definition hexValue :: "char \<Rightarrow> nat option" where
  "hexValue c = map_of (zip ''0123456789abcdef'' [0..<16] @ zip ''ABCDEF'' [10..<16]) c"

definition isDigit :: "char \<Rightarrow> bool" where
  "isDigit c = (digitValue c \<noteq> None)"

definition isHexDigit :: "char \<Rightarrow> bool" where
  "isHexDigit c = (hexValue c \<noteq> None)"

definition numberOf :: "nat \<Rightarrow> (char \<Rightarrow> nat option) \<Rightarrow> string \<Rightarrow> nat" where
  "numberOf radix val ds = foldl (\<lambda>n c. radix * n + the (val c)) 0 ds"

text \<open>An optional sign: whether it is a minus, and the rest of the text.\<close>

fun signOf :: "string \<Rightarrow> bool \<times> string" where
  "signOf [] = (False, [])"
| "signOf (c # cs) = (if c = CHR ''-'' then (True, cs) else if c = CHR ''+'' then (False, cs) else (False, c # cs))"

definition exponentOf :: "string \<Rightarrow> int" where
  "exponentOf r =
     (case r of
        [] \<Rightarrow> 0
      | c # cs \<Rightarrow>
          if c = CHR ''e'' \<or> c = CHR ''E'' then
            (let (neg, r1) = signOf cs; es = takeWhile isDigit r1
             in if es = [] then 0
                else if neg then - int (numberOf 10 digitValue es) else int (numberOf 10 digitValue es))
          else 0)"

definition parseFloat :: "string \<Rightarrow> jsfloat" where
  "parseFloat str =
     (let (neg, r) = signOf (dropWhile isWhiteSpace str) in
      if take 8 r = ''Infinity'' then FInfinity neg
      else
        (let ds = takeWhile isDigit r;
             r1 = dropWhile isDigit r;
             (fs, r2) = (case r1 of
                           [] \<Rightarrow> ([], r1)
                         | c # cs \<Rightarrow> if c = CHR ''.'' then (takeWhile isDigit cs, dropWhile isDigit cs) else ([], r1))
         in if ds = [] \<and> fs = [] then FNaN
            else
              (let mantissa = rat_of_nat (numberOf 10 digitValue (ds @ fs)) / 10 ^ length fs;
                   e = exponentOf r2;
                   v = (if e \<ge> 0 then mantissa * 10 ^ nat e else mantissa / 10 ^ nat (- e))
               in Finite (if neg then - v else v))))"

text \<open>
  \<open>parseInt(buffer)\<close> without a radix: base 16 after the prefix \<open>0x\<close> or \<open>0X\<close>, base 10
  otherwise.
\<close>

definition parseInt :: "string \<Rightarrow> jsnum" where
  "parseInt str =
     (let (neg, r) = signOf (dropWhile isWhiteSpace str);
          hex = (take 2 r = ''0x'' \<or> take 2 r = ''0X'');
          ds = (if hex then takeWhile isHexDigit (drop 2 r) else takeWhile isDigit r);
          n = (if hex then numberOf 16 hexValue ds else numberOf 10 digitValue ds)
      in if ds = [] then NaN else Num (if neg then - int n else int n))"

text \<open>\<open>buffer.split(',')\<close>: the pieces between the commas, at least one.\<close>

fun split_comma :: "string \<Rightarrow> string list" where
  "split_comma [] = [[]]"
| "split_comma (c # cs) =
     (if c = CHR '','' then [] # split_comma cs
      else (case split_comma cs of p # ps \<Rightarrow> (c # p) # ps | [] \<Rightarrow> [[c]]))"

subsection \<open>Objects\<close>

text \<open>
  A decoded frame is an object whose properties hold numbers, strings, booleans or arrays
  of numbers. An object is the list of its properties in the order of their creation.
  The variable \<open>prop\<close> is \<open>undefined\<close> at the start, \<open>null\<close> after a space, or a property
  name; as a property key the first two read \<open>"undefined"\<close> and \<open>"null"\<close>.
\<close>

datatype kfvalue = VNumber jsfloat | VString string | VBoolean bool | VArray "jsfloat list"

type_synonym frameObject = "(string \<times> kfvalue) list"

datatype propref = Undefined | Null | Prop string

fun setProperty :: "'k \<Rightarrow> 'v \<Rightarrow> ('k \<times> 'v) list \<Rightarrow> ('k \<times> 'v) list" where
  "setProperty k v [] = [(k, v)]"
| "setProperty k v (p # ps) = (if fst p = k then (k, v) # ps else p # setProperty k v ps)"

definition keysMap :: "char \<Rightarrow> string option" where
  "keysMap c = map_of
     [(CHR ''X'', ''x''), (CHR ''Y'', ''y''), (CHR ''A'', ''sx''), (CHR ''B'', ''sy''),
      (CHR ''C'', ''kx''), (CHR ''D'', ''ky''), (CHR ''R'', ''r''), (CHR ''L'', ''a''),
      (CHR ''T'', ''t''), (CHR ''F'', ''c''), (CHR ''V'', ''v'')] c"

definition keyOf :: "propref \<Rightarrow> string" where
  "keyOf p = (case p of Undefined \<Rightarrow> ''undefined'' | Null \<Rightarrow> ''null'' | Prop n \<Rightarrow> n)"

definition parseValue :: "frameObject \<Rightarrow> propref \<Rightarrow> string \<Rightarrow> frameObject" where
  "parseValue frame p buffer =
     (if p = Prop ''c'' then setProperty ''c'' (VArray (map parseFloat (split_comma buffer))) frame
      else if p = Prop ''t'' then setProperty ''t'' (VString buffer) frame
      else if p = Prop ''v'' then setProperty ''v'' (VBoolean (case parseInt buffer of NaN \<Rightarrow> False | Num n \<Rightarrow> n \<noteq> 0)) frame
      else setProperty (keyOf p) (VNumber (parseFloat buffer)) frame)"

subsection \<open>The loop\<close>

text \<open>
  The variables of the loop (\<open>property\<close> is the variable \<open>prop\<close>). \<open>result\<close> maps a key to a reference to a frame object and
  \<open>frame\<close> is the reference of the current one, since \<open>result[buffer] = frame\<close> stores
  the object that later calls of \<open>parseValue\<close> still write to. \<open>objs\<close> holds the objects
  created so far; \<open>frame = {}\<close> appends a new one.
\<close>

record decoder =
  result :: "(string \<times> nat) list"
  objs :: "frameObject list"
  frame :: nat
  buffer :: string
  isFrameStarted :: bool
  property :: propref

definition decoder_init :: decoder where
  "decoder_init = \<lparr>result = [], objs = [[]], frame = 0, buffer = [], isFrameStarted = False, property = Undefined\<rparr>"

definition parseInto :: "decoder \<Rightarrow> decoder" where
  "parseInto d = d\<lparr>objs := (objs d)[frame d := parseValue (objs d ! frame d) (property d) (buffer d)]\<rparr>"

text \<open>One turn of \<open>while (i < keyframes.length)\<close> for the character \<open>c = keyframes[i]\<close>.\<close>

definition decodeChar :: "char \<Rightarrow> decoder \<Rightarrow> decoder" where
  "decodeChar c d =
     (case keysMap c of
        Some name \<Rightarrow>
          (let d1 = (if \<not> isFrameStarted d
                     then d\<lparr>isFrameStarted := True, result := setProperty (buffer d) (frame d) (result d)\<rparr>
                     else d);
               d2 = (case property d1 of Prop _ \<Rightarrow> parseInto d1 | _ \<Rightarrow> d1)
           in d2\<lparr>property := Prop name, buffer := []\<rparr>)
      | None \<Rightarrow>
          if c = CHR '' '' then
            (let d1 = parseInto d
             in d1\<lparr>buffer := [], property := Null, objs := objs d1 @ [[]], frame := length (objs d1),
                    isFrameStarted := False\<rparr>)
          else d\<lparr>buffer := buffer d @ [c]\<rparr>)"

text \<open>
  The decoding of a string: the object \<open>result\<close> after the loop, with every reference
  replaced by the object it points to. No statement of the block can throw, so the
  outcome is always a result.
\<close>

definition decodeKeyframes :: "string \<Rightarrow> exn + (string \<times> frameObject) list" where
  "decodeKeyframes keyframes =
     (let d = foldl (\<lambda>d c. decodeChar c d) decoder_init keyframes
      in Inr (map (\<lambda>(key, r). (key, objs d ! r)) (result d)))"

section \<open>Notions used to state the properties\<close>

text \<open>
  The frame a pass of \<open>_updateTimeline\<close> resolves to: \<open>currentFrame\<close> as it stands for an
  independent clip, the frame derived from \<open>startPosition\<close> and \<open>_synchOffset\<close> otherwise.
\<close>

definition resolvedFrame :: "movieclip \<Rightarrow> jsnum" where
  "resolvedFrame m = (if mode m \<noteq> Some INDEPENDENT then currentFrame (deriveFrame m) else currentFrame m)"

text \<open>The calls of action callbacks in a trace.\<close>

fun isCallAction :: "event \<Rightarrow> bool" where
  "isCallAction (CallAction c i cb) = True"
| "isCallAction _ = False"

definition actionEvents :: "world \<Rightarrow> event list" where
  "actionEvents w = filter isCallAction (trace w)"

text \<open>Worlds with one clip, at reference \<open>0\<close>, and with two, at \<open>0\<close> and \<open>1\<close>.\<close>

definition oneClip :: "movieclip \<Rightarrow> world" where
  "oneClip m = \<lparr>heap = (\<lambda>_. MovieClip defaults)(0 := m), trace = []\<rparr>"

definition twoClips :: "movieclip \<Rightarrow> movieclip \<Rightarrow> world" where
  "twoClips m c = \<lparr>heap = (\<lambda>_. MovieClip defaults)(0 := m, 1 := c), trace = []\<rparr>"

text \<open>
  A clip of five frames with one action on each of the frames 0, 3 and 4, in the state
  in which the clock has looped from frame 3 to frame 1 and \<open>_updateTimeline\<close> is about
  to run.
\<close>

definition loopedClip :: movieclip where
  "loopedClip =
     (addAction 14 4 (addAction 13 3 (addAction 10 0 (MovieClip (defaults\<lparr>o_duration := 5\<rparr>)))))
       \<lparr>prevPos := Num 3, currentFrame := Num 1\<rparr>"

text \<open>
  A clip of two frames with one action on each, never resolved, whose clock has reached
  frame 1.
\<close>

definition freshClip :: movieclip where
  "freshClip = (addAction 11 1 (addAction 10 0 (MovieClip (defaults\<lparr>o_duration := 2\<rparr>))))\<lparr>currentFrame := Num 1\<rparr>"


definition parentClip :: movieclip where
  "parentClip = MovieClip (defaults\<lparr>o_duration := 10\<rparr>)"

definition childClip :: movieclip where
  "childClip = MovieClip (defaults\<lparr>o_mode := SYNCHED, o_startPosition := 2, o_duration := 10\<rparr>)"

text \<open>
  The part of the scene below a parent that a pass can reach, for stating what the
  propagation to the children achieves. \<open>targets m\<close> are the objects that the timed-child
  timelines of \<open>m\<close> attach and detach; \<open>fixedPart m\<close> are the fields that no pass writes.

  \<open>ownedRegion h F C\<close>: \<open>F\<close> is a set of objects closed under children and timed-child
  targets, none of which is in \<open>C\<close>; every timed-child target of an object of \<open>F\<close> is
  detached or attached to that object, and no two objects of \<open>F\<close> share a target. With
  \<open>C\<close> the children of a parent and \<open>F\<close> its descendants this says that the scene below
  the parent is a tree.
\<close>

definition targets :: "movieclip \<Rightarrow> ref set" where
  "targets m = tc_target ` set (timedChildTimelines m)"

definition fixedPart :: "movieclip \<Rightarrow> mode option \<times> timedChildTimeline list \<times> int option \<times> int \<times> nat" where
  "fixedPart m = (mode m, timedChildTimelines m, parentStartPosition m, startPosition m, totalFrames m)"

definition ownedRegion :: "(ref \<Rightarrow> movieclip) \<Rightarrow> ref set \<Rightarrow> ref set \<Rightarrow> bool" where
  "ownedRegion h F C \<longleftrightarrow>
     (\<forall>x\<in>F. set (children (h x)) \<subseteq> F - C \<and> targets (h x) \<subseteq> F - C
        \<and> (\<forall>t\<in>targets (h x). parent (h t) = None \<or> parent (h t) = Some x)
        \<and> (\<forall>y\<in>F. y \<noteq> x \<longrightarrow> targets (h y) \<inter> targets (h x) = {}))"

text \<open>
  \<open>framed F C X h h'\<close>: from the store \<open>h\<close> to the store \<open>h'\<close> no fixed part has changed,
  no object outside \<open>F\<close> has changed, no object of \<open>C\<close> outside \<open>X\<close> has changed, and the
  objects of \<open>C\<close> have kept \<open>_synchOffset\<close> and \<open>currentFrame\<close>. \<open>keeps\<close> adds that the
  region is still owned, and \<open>parentReady\<close> is the corresponding statement for the
  timed-children step of the parent itself.
\<close>

definition framed :: "ref set \<Rightarrow> ref set \<Rightarrow> ref set \<Rightarrow> (ref \<Rightarrow> movieclip) \<Rightarrow> (ref \<Rightarrow> movieclip) \<Rightarrow> bool" where
  "framed F C X h h' \<longleftrightarrow>
     (\<forall>y. fixedPart (h' y) = fixedPart (h y)) \<and> (\<forall>y. y \<notin> F \<longrightarrow> h' y = h y)
     \<and> (\<forall>y\<in>C. y \<notin> X \<longrightarrow> h' y = h y)
     \<and> (\<forall>y\<in>C. synchOffset (h' y) = synchOffset (h y) \<and> currentFrame (h' y) = currentFrame (h y))"

definition keeps :: "ref set \<Rightarrow> ref set \<Rightarrow> ref set \<Rightarrow> world \<Rightarrow> world \<Rightarrow> bool" where
  "keeps F C X w w' \<longleftrightarrow> ownedRegion (heap w') F C \<and> framed F C X (heap w) (heap w')"

definition parentReady :: "ref set \<Rightarrow> ref set \<Rightarrow> ref \<Rightarrow> world \<Rightarrow> world \<Rightarrow> bool" where
  "parentReady F C p w w' \<longleftrightarrow>
     ownedRegion (heap w') F C \<and> set (children (heap w' p)) \<subseteq> C
     \<and> (\<forall>y. fixedPart (heap w' y) = fixedPart (heap w y))"

text \<open>
  \<open>ranked h F rk\<close>: the children and the timed-child targets of every object of \<open>F\<close> have
  a smaller rank than the object, so that the scene has no cycle (a rank is, for
  instance, the height of an object in the tree). \<open>kinShrinks h h'\<close>: from \<open>h\<close> to \<open>h'\<close> no
  fixed part has changed and the children of an object are among its former children
  and its timed-child targets.
\<close>

definition ranked :: "(ref \<Rightarrow> movieclip) \<Rightarrow> ref set \<Rightarrow> (ref \<Rightarrow> nat) \<Rightarrow> bool" where
  "ranked h F rk \<longleftrightarrow> (\<forall>x\<in>F. \<forall>y\<in>set (children (h x)) \<union> targets (h x). rk y < rk x)"

definition kinShrinks :: "(ref \<Rightarrow> movieclip) \<Rightarrow> (ref \<Rightarrow> movieclip) \<Rightarrow> bool" where
  "kinShrinks h h' \<longleftrightarrow>
     (\<forall>y. fixedPart (h' y) = fixedPart (h y) \<and> set (children (h' y)) \<subseteq> set (children (h y)) \<union> targets (h y))"

text \<open>The world after the first step of \<open>_updateTimeline\<close>, the derivation of the frame.\<close>

definition derived :: "ref \<Rightarrow> world \<Rightarrow> world" where
  "derived c w = (if mode (heap w c) \<noteq> Some INDEPENDENT then modify c deriveFrame w else w)"

text \<open>
  A clip is synched at the parent's frame \<open>cur\<close>: its \<open>_synchOffset\<close> is \<open>cur\<close> minus its
  \<open>parentStartPosition\<close>, and it has been resolved to the frame derived from that offset
  (\<open>currentFrame\<close> is that frame and \<open>_prevPos\<close> records it).
\<close>

definition synchedAt :: "jsnum \<Rightarrow> movieclip \<Rightarrow> bool" where
  "synchedAt cur m \<longleftrightarrow>
     synchOffset m = js_sub cur (case parentStartPosition m of None \<Rightarrow> NaN | Some s \<Rightarrow> Num s)
     \<and> currentFrame m = resolvedFrame m \<and> prevPos m = currentFrame m"

text \<open>
  A scene of three clips: the parent registers the child as a timed child from frame 0,
  and the child has registered a synched clip of its own as a timed child from frame 1.
\<close>

definition grandClip :: movieclip where
  "grandClip = MovieClip (defaults\<lparr>o_mode := SYNCHED, o_duration := 10\<rparr>)"

definition threeClips :: "movieclip \<Rightarrow> movieclip \<Rightarrow> movieclip \<Rightarrow> world" where
  "threeClips m c g = \<lparr>heap = (\<lambda>_. MovieClip defaults)(0 := m, 1 := c, 2 := g), trace = []\<rparr>"

definition family :: world where
  "family = snd (addTimedChild (Suc (Suc 0)) 0 1 (Some 0) (Some 10)
               (snd (addTimedChild (Suc (Suc 0)) 1 2 (Some 1) (Some 9) (threeClips parentClip childClip grandClip))))"

definition familyRank :: "ref \<Rightarrow> nat" where
  "familyRank r = 2 - r"

section \<open>Action firing\<close>

lemma actionLoop_plain:
  "actionLoop acts c False i len = concat (map (frameCalls acts) [i..len - 1])"
proof (induction "nat (len - i)" arbitrary: i)
  case 0
  then show ?case by (simp add: actionLoop.simps)
next
  case (Suc n)
  then have lt: "i < len" and n: "n = nat (len - (i + 1))" by linarith+
  have u: "[i..len - 1] = i # [i + 1..len - 1]" using lt by (simp add: upto_rec1)
  show ?case using Suc.hyps(1) [OF n] lt by (subst actionLoop.simps) (simp add: u)
qed

lemma frameCalls_beyond: "int (length acts) \<le> i \<Longrightarrow> frameCalls acts i = []"
  by (simp add: frameCalls_def actions_at_def)

lemma concat_frameCalls_beyond:
  "int (length acts) \<le> a \<Longrightarrow> concat (map (frameCalls acts) [a..b]) = []"
  by (auto simp: frameCalls_beyond)

text \<open>
  Without a wrap the loop calls the lists of the frames from \<open>startFrame\<close> to
  \<open>currentFrame\<close>, both included, in ascending order.
\<close>

lemma fireActions_forward:
  assumes "s \<le> c"
  shows "fireActions acts (Num s) (Num c) = concat (map (frameCalls acts) [s..c])"
proof -
  let ?L = "int (length acts)"
  have f: "fireActions acts (Num s) (Num c) = concat (map (frameCalls acts) [s..min (c + 1) ?L - 1])"
    using assms by (simp add: fireActions_def actionLoop_plain)
  show ?thesis
  proof (cases "c + 1 \<le> ?L")
    case True
    then show ?thesis using f by (simp add: min_def)
  next
    case False
    then have m: "min (c + 1) ?L = ?L" by simp
    show ?thesis
    proof (cases "s < ?L")
      case True
      have "[s..c] = [s..?L - 1] @ [?L..c]"
        using upto_split2[of s "?L - 1" c] True False by simp
      then show ?thesis using f m by (simp add: concat_frameCalls_beyond)
    next
      case False
      then show ?thesis using f m by (simp add: concat_frameCalls_beyond)
    qed
  qed
qed

text \<open>
  With a wrap (\<open>currentFrame < startFrame\<close>) the loop starts at \<open>startFrame\<close> with the
  bound \<open>Math.min(currentFrame + 1, actions.length)\<close>, which is below it: the body never
  runs.
\<close>

lemma fireActions_wrap: "c < s \<Longrightarrow> fireActions acts (Num s) (Num c) = []"
  by (simp add: fireActions_def actionLoop.simps)

lemma frameCalls_fst: "p \<in> set (frameCalls acts i) \<Longrightarrow> fst p = i"
  by (auto simp: frameCalls_def split: option.splits)

lemma filter_frameCalls_other:
  "s \<notin> set js \<Longrightarrow>
   filter (\<lambda>p. fst p \<noteq> s) (concat (map (frameCalls acts) js)) = concat (map (frameCalls acts) js)"
  by (rule filter_True) (auto dest: frameCalls_fst)

lemma filter_frameCalls_same: "filter (\<lambda>p. fst p \<noteq> s) (frameCalls acts s) = []"
  by (auto simp: filter_empty_conv dest: frameCalls_fst)

text \<open>
  C1. The scenario of the claim: five frames, actions on the frames 0, 3 and 4, previous
  resolved frame 3, new frame 1, actions enabled. The claim expects the calls of frame 4
  and then of frame 0. The pass of the source ends normally and calls no action at all.
\<close>

theorem wraparound_pass_fires_nothing:
  "totalFrames loopedClip = 5 \<and> actions loopedClip = [Some [10], None, None, Some [13], Some [14]]
   \<and> prevPos loopedClip = Num 3 \<and> currentFrame loopedClip = Num 1 \<and> actionsEnabled loopedClip
   \<and> fst (updateTimeline (Suc 0) 0 (oneClip loopedClip)) = Done
   \<and> trace (snd (updateTimeline (Suc 0) 0 (oneClip loopedClip))) = []
   \<and> prevPos (heap (snd (updateTimeline (Suc 0) 0 (oneClip loopedClip))) 0) = Num 1"
  by code_simp

text \<open>
  C2, as the claim states it, fails: on the very first resolution (\<open>_prevPos = -1\<close>, so
  \<open>startFrame = 0\<close>) of a clip whose clock has reached frame 1, the action of frame 0,
  which is \<open>startFrame\<close>, is called, before the action of frame 1.
\<close>

theorem first_pass_fires_start_frame:
  "prevPos freshClip = Num (- 1) \<and>
   trace (snd (updateTimeline (Suc 0) 0 (oneClip freshClip))) = [CallAction 0 0 10, CallAction 0 1 11]"
  by code_simp

text \<open>
  C2, amended. In a pass without wrap (\<open>startFrame \<le> newFrame\<close>) with actions enabled,
  the calls for frames other than \<open>startFrame\<close> are exactly the registered lists of the
  frames in \<open>(startFrame, newFrame]\<close>, in ascending frame order, each list in
  registration order. On the very first resolution (\<open>_prevPos\<close> negative, hence
  \<open>startFrame = 0\<close>) the calls are exactly the lists of the frames in \<open>[0, newFrame]\<close>:
  the actions of frame 0 are called too, first.
\<close>

theorem forward_pass_actions:
  "(s \<le> c \<longrightarrow>
      filter (\<lambda>p. fst p \<noteq> s) (fireActions acts (Num s) (Num c)) = concat (map (frameCalls acts) [s + 1..c]))
   \<and> (p < 0 \<and> 0 \<le> n \<longrightarrow>
      fireActions acts (if js_lt (Num p) (Num 0) then Num 0 else Num p) (Num n)
        = concat (map (frameCalls acts) [0..n]))"
proof (intro conjI impI)
  assume sc: "s \<le> c"
  have u: "[s..c] = s # [s + 1..c]" using sc by (simp add: upto_rec1)
  have "s \<notin> set [s + 1..c]" by simp
  then have rest: "filter (\<lambda>p. fst p \<noteq> s) (concat (map (frameCalls acts) [s + 1..c]))
      = concat (map (frameCalls acts) [s + 1..c])"
    by (rule filter_frameCalls_other)
  have "fireActions acts (Num s) (Num c) = frameCalls acts s @ concat (map (frameCalls acts) [s + 1..c])"
    by (simp add: fireActions_forward [OF sc] u)
  then show "filter (\<lambda>p. fst p \<noteq> s) (fireActions acts (Num s) (Num c))
      = concat (map (frameCalls acts) [s + 1..c])"
    by (simp add: filter_frameCalls_same rest)
next
  assume "p < 0 \<and> 0 \<le> n"
  then show "fireActions acts (if js_lt (Num p) (Num 0) then Num 0 else Num p) (Num n)
      = concat (map (frameCalls acts) [0..n])"
    by (simp add: fireActions_forward)
qed

theorem forward_pass_actions_witness:
  "(1::int) \<le> 3 \<and> (- 1::int) < 0 \<and> (0::int) \<le> 1 \<and>
   filter (\<lambda>p. fst p \<noteq> 1)
     (fireActions [Some [10], Some [11, 12], None, Some [13], Some [14]] (Num 1) (Num 3)) = [(3, 13)]
   \<and> fireActions [Some [10], Some [11, 12], None, Some [13], Some [14]]
       (if js_lt (Num (- 1)) (Num 0) then Num 0 else Num (- 1)) (Num 1)
       = [(0, 10), (1, 11), (1, 12)]"
proof -
  have e: "[2..3] = [2, 3::int]" "[0..1] = [0, 1::int]" by (simp_all add: upto_rec1)
  show ?thesis
    using forward_pass_actions [where s = 1 and c = 3 and p = "- 1" and n = 1
        and acts = "[Some [10], Some [11, 12], None, Some [13], Some [14]]"]
    by (simp add: frameCalls_def actions_at_def e)
qed

section \<open>The resolution pass\<close>

lemma js_eq_iff: "js_eq a b \<longleftrightarrow> (\<exists>n. a = Num n \<and> b = Num n)"
  by (cases a; cases b) auto

lemma modify_same: "f (heap w r) = heap w r \<Longrightarrow> modify r f w = w"
  by (simp add: modify_def)

lemma heap_modify: "heap (modify r f w) x = (if x = r then f (heap w r) else heap w x)"
  by (simp add: modify_def)

lemma trace_modify: "trace (modify r f w) = trace w"
  by (simp add: modify_def)

text \<open>A pass that ends normally leaves \<open>_prevPos\<close> equal to \<open>currentFrame\<close>.\<close>

lemma updateTimeline_prevPos:
  assumes "updateTimeline k this w = (Done, w1)"
  shows "prevPos (heap w1 this) = currentFrame (heap w1 this)"
proof (cases k)
  case 0
  with assms show ?thesis by simp
next
  case (Suc j)
  define w0 where "w0 = (if mode (heap w this) \<noteq> Some INDEPENDENT then modify this deriveFrame w else w)"
  show ?thesis
  proof (cases "js_eq (prevPos (heap w0 this)) (currentFrame (heap w0 this))")
    case True
    with assms Suc have "w1 = w0" by (simp add: w0_def Let_def)
    with True show ?thesis by (auto simp: js_eq_iff)
  next
    case False
    with assms Suc obtain w2 where "w1 = modify this (\<lambda>m. m\<lparr>prevPos := currentFrame m\<rparr>) w2"
      by (auto simp: w0_def Let_def split: prod.splits status.splits if_splits)
    then show ?thesis by (simp add: heap_modify)
  qed
qed

lemma deriveFrame_same:
  "currentFrame (deriveFrame m) = c \<Longrightarrow> currentFrame m = c \<Longrightarrow> deriveFrame m = m"
  by (simp add: deriveFrame_def Let_def split: if_splits)

text \<open>
  C3. Let a pass of \<open>_updateTimeline\<close> on a clip have ended normally, in the world \<open>w1\<close>.
  If the frame the next pass resolves to equals (as numbers) the frame the clip was
  resolved to, the next pass ends normally and changes nothing: no call of
  \<open>setPosition\<close>, \<open>addChild\<close>, \<open>removeChild\<close> or of an action is added to the trace and
  no object is modified. Equality is that of the source, \<open>==\<close> on numbers, which \<open>NaN\<close>
  does not satisfy.
\<close>

theorem resolution_idempotent:
  assumes first: "updateTimeline k this w = (Done, w1)"
      and same: "js_eq (resolvedFrame (heap w1 this)) (currentFrame (heap w1 this))"
  shows "updateTimeline (Suc k') this w1 = (Done, w1)"
proof -
  have pp: "prevPos (heap w1 this) = currentFrame (heap w1 this)"
    by (rule updateTimeline_prevPos [OF first])
  from same obtain n where r: "resolvedFrame (heap w1 this) = Num n"
    and c: "currentFrame (heap w1 this) = Num n"
    by (auto simp: js_eq_iff)
  show ?thesis
  proof (cases "mode (heap w1 this) = Some INDEPENDENT")
    case True
    then show ?thesis using pp c by (simp add: Let_def)
  next
    case False
    with r have "currentFrame (deriveFrame (heap w1 this)) = Num n" by (simp add: resolvedFrame_def)
    then have "deriveFrame (heap w1 this) = heap w1 this" using c by (rule deriveFrame_same)
    then have "modify this deriveFrame w1 = w1" by (rule modify_same)
    then show ?thesis using False pp c by (simp add: Let_def)
  qed
qed

theorem resolution_idempotent_witness:
  "updateTimeline (Suc 0) 0 (oneClip freshClip) = (Done, snd (updateTimeline (Suc 0) 0 (oneClip freshClip)))
   \<and> js_eq (resolvedFrame (heap (snd (updateTimeline (Suc 0) 0 (oneClip freshClip))) 0))
            (currentFrame (heap (snd (updateTimeline (Suc 0) 0 (oneClip freshClip))) 0))
   \<and> trace (snd (updateTimeline (Suc 0) 0 (oneClip freshClip))) = [CallAction 0 0 10, CallAction 0 1 11]
   \<and> updateTimeline (Suc 0) 0 (snd (updateTimeline (Suc 0) 0 (oneClip freshClip)))
       = (Done, snd (updateTimeline (Suc 0) 0 (oneClip freshClip)))"
proof -
  let ?w1 = "snd (updateTimeline (Suc 0) 0 (oneClip freshClip))"
  have d: "fst (updateTimeline (Suc 0) 0 (oneClip freshClip)) = Done" by code_simp
  have h1: "updateTimeline (Suc 0) 0 (oneClip freshClip) = (Done, ?w1)"
    using d by (simp add: prod_eq_iff)
  have h2: "js_eq (resolvedFrame (heap ?w1 0)) (currentFrame (heap ?w1 0))" by code_simp
  have t: "trace ?w1 = [CallAction 0 0 10, CallAction 0 1 11]" by code_simp
  show ?thesis using resolution_idempotent [OF h1 h2, of 0] h1 h2 t by simp
qed

section \<open>Seeking\<close>

text \<open>
  C5. \<open>gotoAndStop(7)\<close> on an independent clip of five frames that has never been
  resolved: the claim expects \<open>currentFrame\<close> in \<open>[0, 5)\<close> afterwards. The source stores
  the position as it is, without the clamp that \<open>advance\<close> applies
  (\<open>if (this.currentFrame >= this._totalFrames) this.currentFrame = this._totalFrames - 1\<close>).
\<close>

theorem seek_beyond_end_is_not_clamped:
  "totalFrames (MovieClip (defaults\<lparr>o_duration := 5\<rparr>)) = 5
   \<and> fst (gotoAndStop (Suc 0) 0 (Position (Num 7)) (oneClip (MovieClip (defaults\<lparr>o_duration := 5\<rparr>)))) = Done
   \<and> currentFrame (heap (snd (gotoAndStop (Suc 0) 0 (Position (Num 7))
        (oneClip (MovieClip (defaults\<lparr>o_duration := 5\<rparr>))))) 0) = Num 7"
  by code_simp



section \<open>Registration of actions\<close>

text \<open>
  C6. \<open>addAction(callback, 3)\<close> on a new clip: the claim expects \<open>totalFrames\<close> to be at
  least 4. The source extends \<open>actions.length\<close> to \<open>startFrame + 1\<close> but \<open>_totalFrames\<close>
  only to \<open>startFrame\<close>, so \<open>totalFrames\<close> is 3 and the action sits on a frame outside
  \<open>[0, totalFrames)\<close>.
\<close>

theorem addAction_totalFrames_short:
  "totalFrames (MovieClip defaults) = 0
   \<and> totalFrames (addAction 10 3 (MovieClip defaults)) = 3
   \<and> length (actions (addAction 10 3 (MovieClip defaults))) = 4"
  by code_simp

section \<open>Decoding of keyframe strings\<close>

text \<open>
  C7, as the claim states it, fails: the code letters are the capital letters of
  \<open>keysMap\<close>, so the small letters of \<open>"0x100y100 10x150"\<close> are read as text and the
  decoded object has no entry at all.
\<close>

theorem decode_lower_case_is_empty:
  "decodeKeyframes ''0x100y100 10x150'' = Inr []"
  by code_simp

text \<open>
  C7, amended. The string \<open>"0X100Y100 10X150 "\<close>, with capital code letters and a space
  closing each record, decodes to \<open>{0: {x: 100, y: 100}, 10: {x: 150}}\<close>.
\<close>

theorem decode_upper_case:
  "decodeKeyframes ''0X100Y100 10X150 ''
     = Inr [(''0'', [(''x'', VNumber (Finite 100)), (''y'', VNumber (Finite 100))]),
            (''10'', [(''x'', VNumber (Finite 150))])]"
  by code_simp




section \<open>Actions of clips that are not independent\<close>

lemma actionEvents_modify [simp]: "actionEvents (modify r f w) = actionEvents w"
  by (simp add: actionEvents_def modify_def)

lemma actionEvents_emit: "actionEvents (emit es w) = actionEvents w @ filter isCallAction es"
  by (simp add: actionEvents_def emit_def)

lemma actionEvents_tweens [simp]: "actionEvents (emit (tweenCalls this tls cur) w) = actionEvents w"
  by (simp add: actionEvents_emit tweenCalls_def filter_concat comp_def split: option.split) 

lemma actionEvents_takeOut [simp]: "actionEvents (takeOut this c w) = actionEvents w"
  by (simp add: takeOut_def)

lemma actionEvents_removeChild [simp]: "actionEvents (removeChild this c w) = actionEvents w"
  by (simp add: removeChild_def actionEvents_emit)

lemma actionEvents_addChild [simp]: "actionEvents (addChild this c w) = actionEvents w"
  by (simp add: addChild_def Let_def actionEvents_emit split: option.split)

lemma actionEvents_reset [simp]: "actionEvents (reset c w) = actionEvents w"
  by (simp add: reset_def)

lemma actionEvents_timedChild [simp]: "actionEvents (timedChild this cur tline w) = actionEvents w"
  by (simp add: timedChild_def Let_def)

lemma actionEvents_timedChildren [simp]: "actionEvents (timedChildren this cur tls w) = actionEvents w"
  by (induction tls arbitrary: w) simp_all

lemma mode_setSynchOffset [simp]: "mode (setSynchOffset cur m) = mode m"
  by (simp add: setSynchOffset_def)








section \<open>Propagation to synched children\<close>

text \<open>
  C4, as the claim states it, fails: the offset is taken from \<open>parentStartPosition\<close>, the
  frame at which the parent's \<open>addTimedChild\<close> registered the child, not from the child's
  own \<open>startPosition\<close>. A child constructed with \<open>startPosition = 2\<close> and registered
  from frame 0 gets, when the parent is resolved to frame 3, the offset \<open>3 - 0 = 3\<close> and
  not \<open>3 - 2 = 1\<close>.
\<close>

theorem synch_offset_ignores_startPosition:
  "startPosition (heap (snd (gotoAndStop (Suc (Suc 0)) 0 (Position (Num 3))
       (snd (addTimedChild (Suc (Suc 0)) 0 1 (Some 0) (Some 10) (twoClips parentClip childClip))))) 1) = 2
   \<and> currentFrame (heap (snd (gotoAndStop (Suc (Suc 0)) 0 (Position (Num 3))
       (snd (addTimedChild (Suc (Suc 0)) 0 1 (Some 0) (Some 10) (twoClips parentClip childClip))))) 0) = Num 3
   \<and> children (heap (snd (gotoAndStop (Suc (Suc 0)) 0 (Position (Num 3))
       (snd (addTimedChild (Suc (Suc 0)) 0 1 (Some 0) (Some 10) (twoClips parentClip childClip))))) 0) = [1]
   \<and> synchOffset (heap (snd (gotoAndStop (Suc (Suc 0)) 0 (Position (Num 3))
       (snd (addTimedChild (Suc (Suc 0)) 0 1 (Some 0) (Some 10) (twoClips parentClip childClip))))) 1) = Num 3
   \<and> js_sub (Num 3) (Num 2) = Num 1"
  by code_simp

lemma targets_fixed: "fixedPart m' = fixedPart m \<Longrightarrow> targets m' = targets m"
  by (simp add: fixedPart_def targets_def)

lemma framedI:
  assumes "\<And>y. fixedPart (h' y) = fixedPart (h y)" "\<And>y. y \<notin> F \<Longrightarrow> h' y = h y"
    "\<And>y. y \<in> C \<Longrightarrow> y \<notin> X \<Longrightarrow> h' y = h y"
    "\<And>y. y \<in> C \<Longrightarrow> synchOffset (h' y) = synchOffset (h y) \<and> currentFrame (h' y) = currentFrame (h y)"
  shows "framed F C X h h'"
  unfolding framed_def using assms by blast

lemma framed_fixed: "framed F C X h h' \<Longrightarrow> fixedPart (h' y) = fixedPart (h y)"
  unfolding framed_def by blast

lemma framed_outside: "framed F C X h h' \<Longrightarrow> y \<notin> F \<Longrightarrow> h' y = h y"
  unfolding framed_def by blast

lemma framed_protected: "framed F C X h h' \<Longrightarrow> y \<in> C \<Longrightarrow> y \<notin> X \<Longrightarrow> h' y = h y"
  unfolding framed_def by blast

lemma framed_offset:
  "framed F C X h h' \<Longrightarrow> y \<in> C \<Longrightarrow> synchOffset (h' y) = synchOffset (h y) \<and> currentFrame (h' y) = currentFrame (h y)"
  unfolding framed_def by blast

lemma framed_refl: "framed F C X h h"
  by (rule framedI) simp_all

lemma framed_trans:
  assumes a: "framed F C X h h1" and b: "framed F C X h1 h2"
  shows "framed F C X h h2"
proof (rule framedI)
  fix y
  show "fixedPart (h2 y) = fixedPart (h y)"
    using framed_fixed [OF a, of y] framed_fixed [OF b, of y] by simp
  show "h2 y = h y" if "y \<notin> F"
    using framed_outside [OF a that] framed_outside [OF b that] by simp
  show "h2 y = h y" if "y \<in> C" "y \<notin> X"
    using framed_protected [OF a that] framed_protected [OF b that] by simp
  show "synchOffset (h2 y) = synchOffset (h y) \<and> currentFrame (h2 y) = currentFrame (h y)" if "y \<in> C"
    using framed_offset [OF a that] framed_offset [OF b that] by simp
qed

lemma framed_mono:
  assumes a: "framed F C X h h'" and s: "X \<inter> C \<subseteq> X'"
  shows "framed F C X' h h'"
proof (rule framedI)
  fix y
  show "fixedPart (h' y) = fixedPart (h y)" by (rule framed_fixed [OF a])
  show "h' y = h y" if "y \<notin> F" by (rule framed_outside [OF a that])
  show "h' y = h y" if "y \<in> C" "y \<notin> X'"
  proof -
    have "y \<notin> X" using that s by auto
    then show ?thesis by (rule framed_protected [OF a that(1)])
  qed
  show "synchOffset (h' y) = synchOffset (h y) \<and> currentFrame (h' y) = currentFrame (h y)" if "y \<in> C"
    by (rule framed_offset [OF a that])
qed

lemma framed_targets: "framed F C X h h' \<Longrightarrow> targets (h' y) = targets (h y)"
  by (rule targets_fixed) (rule framed_fixed)

lemma framed_upd:
  assumes "fixedPart m' = fixedPart (h y)" "y \<in> F"
    and "y \<in> C \<Longrightarrow> y \<in> X \<and> synchOffset m' = synchOffset (h y) \<and> currentFrame m' = currentFrame (h y)"
  shows "framed F C X h (h(y := m'))"
proof (rule framedI)
  fix z
  show "fixedPart ((h(y := m')) z) = fixedPart (h z)" using assms(1) by simp
  show "(h(y := m')) z = h z" if "z \<notin> F" using that assms(2) by auto
  show "(h(y := m')) z = h z" if "z \<in> C" "z \<notin> X" using that assms(3) by auto
  show "synchOffset ((h(y := m')) z) = synchOffset (h z) \<and> currentFrame ((h(y := m')) z) = currentFrame (h z)"
    if "z \<in> C" using that assms(3) by auto
qed

lemma ownedRegion_children: "ownedRegion h F C \<Longrightarrow> x \<in> F \<Longrightarrow> set (children (h x)) \<subseteq> F - C"
  unfolding ownedRegion_def by blast

lemma ownedRegion_targets: "ownedRegion h F C \<Longrightarrow> x \<in> F \<Longrightarrow> targets (h x) \<subseteq> F - C"
  unfolding ownedRegion_def by blast

lemma ownedRegion_parent:
  "ownedRegion h F C \<Longrightarrow> x \<in> F \<Longrightarrow> t \<in> targets (h x) \<Longrightarrow> parent (h t) = None \<or> parent (h t) = Some x"
  unfolding ownedRegion_def by blast

lemma ownedRegion_owner:
  "ownedRegion h F C \<Longrightarrow> x \<in> F \<Longrightarrow> y \<in> F \<Longrightarrow> t \<in> targets (h x) \<Longrightarrow> t \<in> targets (h y) \<Longrightarrow> y = x"
  unfolding ownedRegion_def by blast

lemma ownedRegionI:
  assumes "\<And>x. x \<in> F \<Longrightarrow> set (children (h x)) \<subseteq> F - C"
    and "\<And>x. x \<in> F \<Longrightarrow> targets (h x) \<subseteq> F - C"
    and "\<And>x t. x \<in> F \<Longrightarrow> t \<in> targets (h x) \<Longrightarrow> parent (h t) = None \<or> parent (h t) = Some x"
    and "\<And>x y t. x \<in> F \<Longrightarrow> y \<in> F \<Longrightarrow> t \<in> targets (h x) \<Longrightarrow> t \<in> targets (h y) \<Longrightarrow> y = x"
  shows "ownedRegion h F C"
  unfolding ownedRegion_def
proof (intro ballI conjI impI)
  fix x assume x: "x \<in> F"
  show "set (children (h x)) \<subseteq> F - C" by (rule assms(1) [OF x])
  show "targets (h x) \<subseteq> F - C" by (rule assms(2) [OF x])
  show "parent (h t) = None \<or> parent (h t) = Some x" if "t \<in> targets (h x)" for t
    by (rule assms(3) [OF x that])
  show "targets (h y) \<inter> targets (h x) = {}" if "y \<in> F" "y \<noteq> x" for y
    using assms(4) [OF x that(1)] that(2) by blast
qed

lemma ownedRegion_upd:
  assumes o: "ownedRegion h F C"
    and f: "fixedPart m' = fixedPart (h y)"
    and c: "y \<in> F \<Longrightarrow> set (children m') \<subseteq> F - C"
    and p: "\<And>x. x \<in> F \<Longrightarrow> y \<in> targets (h x) \<Longrightarrow> parent m' = None \<or> parent m' = Some x"
  shows "ownedRegion (h(y := m')) F C"
proof -
  let ?h = "h(y := m')"
  have t: "targets (?h x) = targets (h x)" for x
  proof (cases "x = y")
    case True
    then show ?thesis using targets_fixed [OF f] by simp
  next
    case False
    then show ?thesis by simp
  qed
  show ?thesis
  proof (rule ownedRegionI)
    fix x assume x: "x \<in> F"
    show "set (children (?h x)) \<subseteq> F - C"
    proof (cases "x = y")
      case True
      then have "?h x = m'" by simp
      then show ?thesis using c x True by simp
    next
      case False
      then have "?h x = h x" by simp
      then show ?thesis using ownedRegion_children [OF o x] by simp
    qed
    show "targets (?h x) \<subseteq> F - C" using ownedRegion_targets [OF o x] by (simp only: t)
  next
    fix x u assume x: "x \<in> F" and "u \<in> targets (?h x)"
    then have tt: "u \<in> targets (h x)" by (simp only: t)
    show "parent (?h u) = None \<or> parent (?h u) = Some x"
    proof (cases "u = y")
      case True
      then have "?h u = m'" by simp
      then show ?thesis using p [OF x] tt True by simp
    next
      case False
      then have "?h u = h u" by simp
      then show ?thesis using ownedRegion_parent [OF o x tt] by simp
    qed
  next
    fix x z u assume "x \<in> F" "z \<in> F" "u \<in> targets (?h x)" "u \<in> targets (?h z)"
    then have "x \<in> F" "z \<in> F" "u \<in> targets (h x)" "u \<in> targets (h z)" by (simp_all only: t)
    then show "z = x" by (rule ownedRegion_owner [OF o])
  qed
qed

lemma heap_modify': "heap (modify r f w) = (heap w)(r := f (heap w r))"
  by (simp add: modify_def)

lemma heap_emit [simp]: "heap (emit es w) = heap w"
  by (simp add: emit_def)

lemma keeps_refl: "ownedRegion (heap w) F C \<Longrightarrow> keeps F C X w w"
  by (simp add: keeps_def framed_refl)

lemma keeps_same_heap: "ownedRegion (heap w) F C \<Longrightarrow> heap w' = heap w \<Longrightarrow> keeps F C X w w'"
  by (simp add: keeps_def framed_refl)

lemma keeps_trans:
  assumes "keeps F C X w w1" "keeps F C X w1 w2"
  shows "keeps F C X w w2"
proof -
  have "framed F C X (heap w) (heap w1)" "framed F C X (heap w1) (heap w2)" "ownedRegion (heap w2) F C"
    using assms by (simp_all add: keeps_def)
  then show ?thesis using framed_trans [of F C X "heap w" "heap w1" "heap w2"] by (simp add: keeps_def)
qed

lemma keeps_mono:
  assumes "keeps F C X w w'" "X \<inter> C \<subseteq> X'"
  shows "keeps F C X' w w'"
  using assms framed_mono [of F C X "heap w" "heap w'" X'] by (simp add: keeps_def)

lemma keeps_owned: "keeps F C X w w' \<Longrightarrow> ownedRegion (heap w') F C"
  by (simp add: keeps_def)

lemma keeps_framed: "keeps F C X w w' \<Longrightarrow> framed F C X (heap w) (heap w')"
  by (simp add: keeps_def)

lemma write_ok:
  assumes o: "ownedRegion (heap w) F C"
    and f: "fixedPart (f (heap w y)) = fixedPart (heap w y)"
    and y: "y \<in> F"
    and c: "set (children (f (heap w y))) \<subseteq> F - C"
    and p: "\<And>x. x \<in> F \<Longrightarrow> y \<in> targets (heap w x) \<Longrightarrow> parent (f (heap w y)) = None \<or> parent (f (heap w y)) = Some x"
    and s: "y \<in> C \<Longrightarrow> y \<in> X \<and> synchOffset (f (heap w y)) = synchOffset (heap w y)
              \<and> currentFrame (f (heap w y)) = currentFrame (heap w y)"
  shows "keeps F C X w (modify y f w)"
proof -
  have "ownedRegion ((heap w)(y := f (heap w y))) F C"
    by (rule ownedRegion_upd [where h = "heap w" and y = y and m' = "f (heap w y)", OF o f c p])
  moreover have "framed F C X (heap w) ((heap w)(y := f (heap w y)))"
    by (rule framed_upd [where h = "heap w" and y = y and m' = "f (heap w y)", OF f y s])
  ultimately show ?thesis by (simp add: heap_modify' keeps_def)
qed

lemma keeps_set_parent:
  assumes o: "ownedRegion (heap w) F C" and t: "t \<in> F" "t \<notin> C"
    and p: "\<And>x. x \<in> F \<Longrightarrow> t \<in> targets (heap w x) \<Longrightarrow> v = None \<or> v = Some x"
  shows "keeps F C X w (modify t (\<lambda>m. m\<lparr>parent := v\<rparr>) w)"
proof (rule write_ok [where f = "\<lambda>m. m\<lparr>parent := v\<rparr>" and y = t and w = w, OF o])
  show "fixedPart ((heap w t)\<lparr>parent := v\<rparr>) = fixedPart (heap w t)" by (simp add: fixedPart_def)
  show "t \<in> F" by fact
  show "set (children ((heap w t)\<lparr>parent := v\<rparr>)) \<subseteq> F - C"
    using ownedRegion_children [OF o t(1)] by simp
  show "parent ((heap w t)\<lparr>parent := v\<rparr>) = None \<or> parent ((heap w t)\<lparr>parent := v\<rparr>) = Some x"
    if "x \<in> F" "t \<in> targets (heap w x)" for x using p [OF that] by simp
  show "t \<in> X \<and> synchOffset ((heap w t)\<lparr>parent := v\<rparr>) = synchOffset (heap w t)
      \<and> currentFrame ((heap w t)\<lparr>parent := v\<rparr>) = currentFrame (heap w t)" if "t \<in> C"
    using that t(2) by simp
qed

lemma keeps_set_children:
  assumes o: "ownedRegion (heap w) F C" and c: "c \<in> F" "c \<in> X"
    and g: "set (g (children (heap w c))) \<subseteq> F - C"
  shows "keeps F C X w (modify c (\<lambda>m. m\<lparr>children := g (children m)\<rparr>) w)"
proof (rule write_ok [where f = "\<lambda>m. m\<lparr>children := g (children m)\<rparr>" and y = c and w = w, OF o])
  let ?m = "(heap w c)\<lparr>children := g (children (heap w c))\<rparr>"
  show "fixedPart ?m = fixedPart (heap w c)" by (simp add: fixedPart_def)
  show "c \<in> F" by fact
  show "set (children ?m) \<subseteq> F - C" using g by simp
  show "parent ?m = None \<or> parent ?m = Some x" if "x \<in> F" "c \<in> targets (heap w x)" for x
    using ownedRegion_parent [OF o that] by simp
  show "c \<in> X \<and> synchOffset ?m = synchOffset (heap w c) \<and> currentFrame ?m = currentFrame (heap w c)" if "c \<in> C"
    using c(2) by simp
qed

lemma keeps_plain:
  assumes o: "ownedRegion (heap w) F C" and y: "y \<in> F"
    and f: "fixedPart (f (heap w y)) = fixedPart (heap w y)" "children (f (heap w y)) = children (heap w y)"
      "parent (f (heap w y)) = parent (heap w y)"
    and s: "y \<in> C \<Longrightarrow> y \<in> X \<and> synchOffset (f (heap w y)) = synchOffset (heap w y)
              \<and> currentFrame (f (heap w y)) = currentFrame (heap w y)"
  shows "keeps F C X w (modify y f w)"
proof (rule write_ok [where f = f and y = y and w = w, OF o f(1) y])
  show "set (children (f (heap w y))) \<subseteq> F - C"
    using ownedRegion_children [OF o y] f(2) by simp
  show "parent (f (heap w y)) = None \<or> parent (f (heap w y)) = Some x" if "x \<in> F" "y \<in> targets (heap w x)" for x
    using ownedRegion_parent [OF o that] f(3) by simp
  show "y \<in> X \<and> synchOffset (f (heap w y)) = synchOffset (heap w y)
      \<and> currentFrame (f (heap w y)) = currentFrame (heap w y)" if "y \<in> C"
    by (rule s [OF that])
qed

lemma ownedRegion_plain:
  assumes o: "ownedRegion (heap w) F C"
    and f: "fixedPart (f (heap w y)) = fixedPart (heap w y)" "children (f (heap w y)) = children (heap w y)"
      "parent (f (heap w y)) = parent (heap w y)"
  shows "ownedRegion (heap (modify y f w)) F C"
proof -
  have "ownedRegion ((heap w)(y := f (heap w y))) F C"
  proof (rule ownedRegion_upd [where h = "heap w" and y = y and m' = "f (heap w y)", OF o f(1)])
    show "set (children (f (heap w y))) \<subseteq> F - C" if "y \<in> F"
      using ownedRegion_children [OF o that] f(2) by simp
    show "parent (f (heap w y)) = None \<or> parent (f (heap w y)) = Some x" if "x \<in> F" "y \<in> targets (heap w x)" for x
      using ownedRegion_parent [OF o that] f(3) by simp
  qed
  then show ?thesis by (simp add: heap_modify')
qed

lemma keeps_addChild:
  assumes o: "ownedRegion (heap w) F C" and c: "c \<in> F" "c \<in> X"
    and t: "t \<in> targets (heap w c)" and np: "parent (heap w t) \<noteq> Some c"
  shows "keeps F C X w (addChild c t w)"
proof -
  have tF: "t \<in> F" "t \<notin> C" using ownedRegion_targets [OF o c(1)] t by auto
  have pn: "parent (heap w t) = None" using ownedRegion_parent [OF o c(1) t] np by simp
  define w0 where "w0 = emit [AddChild c t] w"
  define w1 where "w1 = modify t (\<lambda>m. m\<lparr>parent := Some c\<rparr>) w0"
  define w2 where "w2 = modify c (\<lambda>m. m\<lparr>children := children m @ [t]\<rparr>) w1"
  have e: "addChild c t w = w2"
    using pn by (simp add: addChild_def Let_def w0_def w1_def w2_def)
  have h0: "heap w0 = heap w" by (simp add: w0_def)
  have o0: "ownedRegion (heap w0) F C" using o h0 by simp
  have k0: "keeps F C X w w0" by (rule keeps_same_heap [OF o h0])
  have k1: "keeps F C X w0 w1" unfolding w1_def
  proof (rule keeps_set_parent [OF o0 tF])
    fix x assume "x \<in> F" "t \<in> targets (heap w0 x)"
    then have "x = c" using ownedRegion_owner [OF o c(1), of x t] t h0 by simp
    then show "Some c = None \<or> Some c = Some x" by simp
  qed
  have o1: "ownedRegion (heap w1) F C" by (rule keeps_owned [OF k1])
  have k2: "keeps F C X w1 w2" unfolding w2_def
  proof (rule keeps_set_children [where g = "\<lambda>cs. cs @ [t]", OF o1 c])
    show "set (children (heap w1 c) @ [t]) \<subseteq> F - C"
      using ownedRegion_children [OF o1 c(1)] tF by simp
  qed
  show ?thesis unfolding e by (rule keeps_trans [OF keeps_trans [OF k0 k1] k2])
qed

lemma keeps_removeChild:
  assumes o: "ownedRegion (heap w) F C" and c: "c \<in> F" "c \<in> X"
    and t: "t \<in> targets (heap w c)"
  shows "keeps F C X w (removeChild c t w)"
proof -
  have tF: "t \<in> F" "t \<notin> C" using ownedRegion_targets [OF o c(1)] t by auto
  define w0 where "w0 = emit [RemoveChild c t] w"
  have h0: "heap w0 = heap w" by (simp add: w0_def)
  have o0: "ownedRegion (heap w0) F C" using o h0 by simp
  have k0: "keeps F C X w w0" by (rule keeps_same_heap [OF o h0])
  show ?thesis
  proof (cases "t \<in> set (children (heap w0 c))")
    case False
    then have "removeChild c t w = w0" by (simp add: removeChild_def takeOut_def w0_def)
    then show ?thesis using k0 by simp
  next
    case True
    define w1 where "w1 = modify t (\<lambda>m. m\<lparr>parent := None\<rparr>) w0"
    define w2 where "w2 = modify c (\<lambda>m. m\<lparr>children := remove1 t (children m)\<rparr>) w1"
    have e: "removeChild c t w = w2"
      using True by (simp add: removeChild_def takeOut_def w0_def w1_def w2_def)
    have k1: "keeps F C X w0 w1" unfolding w1_def
      by (rule keeps_set_parent [OF o0 tF]) simp
    have o1: "ownedRegion (heap w1) F C" by (rule keeps_owned [OF k1])
    have k2: "keeps F C X w1 w2" unfolding w2_def
    proof (rule keeps_set_children [where g = "remove1 t", OF o1 c])
      show "set (remove1 t (children (heap w1 c))) \<subseteq> F - C"
        using ownedRegion_children [OF o1 c(1)] set_remove1_subset [of t "children (heap w1 c)"] by blast
    qed
    show ?thesis unfolding e by (rule keeps_trans [OF keeps_trans [OF k0 k1] k2])
  qed
qed

lemma keeps_reset:
  assumes o: "ownedRegion (heap w) F C" and t: "t \<in> F" "t \<notin> C"
  shows "keeps F C X w (reset t w)"
  unfolding reset_def
  by (rule keeps_plain [where f = "\<lambda>m. m\<lparr>prevPos := Num (- 1), elapsedTime := Some 0, currentFrame := Num 0\<rparr>", OF o t(1)])
     (use t in \<open>simp_all add: fixedPart_def\<close>)

lemma keeps_timedChild:
  assumes o: "ownedRegion (heap w) F C" and c: "c \<in> F" "c \<in> X"
    and t: "tc_target tline \<in> targets (heap w c)"
  shows "keeps F C X w (timedChild c cur tline w)"
proof -
  let ?t = "tc_target tline"
  have tF: "?t \<in> F" "?t \<notin> C" using ownedRegion_targets [OF o c(1)] t by auto
  consider (add) "shouldBeChild (tc_frames tline) cur" "parent (heap w ?t) \<noteq> Some c"
    | (remove) "\<not> shouldBeChild (tc_frames tline) cur" "parent (heap w ?t) = Some c"
    | (none) "\<not> (shouldBeChild (tc_frames tline) cur \<and> parent (heap w ?t) \<noteq> Some c)"
             "\<not> (\<not> shouldBeChild (tc_frames tline) cur \<and> parent (heap w ?t) = Some c)"
    by blast
  then show ?thesis
  proof cases
    case add
    have k1: "keeps F C X w (addChild c ?t w)" by (rule keeps_addChild [OF o c t add(2)])
    have o1: "ownedRegion (heap (addChild c ?t w)) F C" by (rule keeps_owned [OF k1])
    have k2: "keeps F C X (addChild c ?t w) (reset ?t (addChild c ?t w))" by (rule keeps_reset [OF o1 tF])
    show ?thesis using add k1 keeps_trans [OF k1 k2] by (simp add: timedChild_def Let_def)
  next
    case remove
    then show ?thesis using keeps_removeChild [OF o c t] by (simp add: timedChild_def Let_def)
  next
    case none
    then have "timedChild c cur tline w = w" by (auto simp: timedChild_def Let_def)
    then show ?thesis using keeps_refl [OF o] by simp
  qed
qed

lemma keeps_timedChildren:
  assumes c: "c \<in> F" "c \<in> X"
  shows "ownedRegion (heap w) F C \<Longrightarrow> tc_target ` set tls \<subseteq> targets (heap w c)
    \<Longrightarrow> keeps F C X w (timedChildren c cur tls w)"
proof (induction tls arbitrary: w)
  case Nil
  then show ?case by (simp add: keeps_refl)
next
  case (Cons tline tls)
  have t: "tc_target tline \<in> targets (heap w c)" using Cons.prems(2) by simp
  have k1: "keeps F C X w (timedChild c cur tline w)" by (rule keeps_timedChild [OF Cons.prems(1) c t])
  have o1: "ownedRegion (heap (timedChild c cur tline w)) F C" by (rule keeps_owned [OF k1])
  have "targets (heap (timedChild c cur tline w) c) = targets (heap w c)"
    by (rule framed_targets [OF keeps_framed [OF k1]])
  then have "tc_target ` set tls \<subseteq> targets (heap (timedChild c cur tline w) c)"
    using Cons.prems(2) by simp
  then have k2: "keeps F C X (timedChild c cur tline w) (timedChildren c cur tls (timedChild c cur tline w))"
    by (rule Cons.IH [OF o1])
  show ?case using keeps_trans [OF k1 k2] by simp
qed

lemma fixedPart_setSynchOffset: "fixedPart (setSynchOffset cur m) = fixedPart m"
  by (simp add: setSynchOffset_def fixedPart_def)

lemma fixedPart_deriveFrame: "fixedPart (deriveFrame m) = fixedPart m"
  by (simp add: deriveFrame_def fixedPart_def Let_def)

lemma keeps_syncChildren:
  assumes upd: "\<And>d w. ownedRegion (heap w) F C \<Longrightarrow> d \<in> F \<Longrightarrow> d \<notin> C \<Longrightarrow> keeps F C {} w (snd (upd d w))"
    and c: "c \<in> F"
  shows "ownedRegion (heap w) F C \<Longrightarrow> keeps F C {} w (snd (syncChildren upd c cur i len w))"
proof (induction "len - i" arbitrary: i w)
  case 0
  then show ?case by (simp add: syncChildren.simps keeps_refl)
next
  case (Suc n)
  then have lt: "i < len" and n: "n = len - Suc i" by linarith+
  note IH = Suc.hyps(1) [OF n]
  note o = Suc.prems
  show ?case
  proof (cases "i < length (children (heap w c))")
    case False
    then show ?thesis using lt o by (simp add: syncChildren.simps keeps_refl)
  next
    case inb: True
    define d where "d = children (heap w c) ! i"
    have "d \<in> set (children (heap w c))" using inb by (simp add: d_def)
    then have dF: "d \<in> F" "d \<notin> C" using ownedRegion_children [OF o c] by auto
    show ?thesis
    proof (cases "mode (heap w d) = Some SYNCHED")
      case False
      then show ?thesis using lt inb IH [OF o] by (subst syncChildren.simps) (simp add: d_def Let_def)
    next
      case True
      define w1 where "w1 = modify d (setSynchOffset cur) w"
      define r where "r = upd d w1"
      have k1: "keeps F C {} w w1" unfolding w1_def
        by (rule keeps_plain [where f = "setSynchOffset cur", OF o dF(1)])
           (use dF in \<open>simp_all add: fixedPart_setSynchOffset\<close>, simp_all add: setSynchOffset_def)
      have o1: "ownedRegion (heap w1) F C" by (rule keeps_owned [OF k1])
      have k2: "keeps F C {} w1 (snd r)" unfolding r_def by (rule upd [OF o1 dF])
      have k12: "keeps F C {} w (snd r)" by (rule keeps_trans [OF k1 k2])
      have e: "syncChildren upd c cur i len w =
          (case r of (Done, w') \<Rightarrow> syncChildren upd c cur (Suc i) len w' | r \<Rightarrow> r)"
        using lt inb True by (subst syncChildren.simps) (simp add: d_def r_def w1_def Let_def)
      show ?thesis
      proof (cases r)
        case (Pair st w')
        have o': "ownedRegion (heap w') F C" using keeps_owned [OF k12] Pair by simp
        have k3: "keeps F C {} w' (snd (syncChildren upd c cur (Suc i) len w'))" by (rule IH [OF o'])
        have k': "keeps F C {} w w'" using k12 Pair by simp
        show ?thesis using e Pair k' keeps_trans [OF k' k3] by (cases st) simp_all
      qed
    qed
  qed
qed

lemma keeps_setTimelinePosition:
  assumes upd: "\<And>d w. ownedRegion (heap w) F C \<Longrightarrow> d \<in> F \<Longrightarrow> d \<notin> C \<Longrightarrow> keeps F C {} w (snd (upd d w))"
    and c: "c \<in> F" and o: "ownedRegion (heap w) F C"
  shows "keeps F C {c} w (snd (setTimelinePosition upd c start cur doActions w))"
proof -
  define w1 where "w1 = emit (tweenCalls c (timelines (heap w c)) cur) w"
  define w2 where "w2 = timedChildren c cur (timedChildTimelines (heap w1 c)) w1"
  define r where "r = syncChildren upd c cur 0 (length (children (heap w2 c))) w2"
  have h1: "heap w1 = heap w" by (simp add: w1_def)
  have k1: "keeps F C {c} w w1" by (rule keeps_same_heap [OF o h1])
  have o1: "ownedRegion (heap w1) F C" using o h1 by simp
  have k2: "keeps F C {c} w1 w2" unfolding w2_def
    by (rule keeps_timedChildren [OF c _ o1]) (simp_all add: targets_def)
  have o2: "ownedRegion (heap w2) F C" by (rule keeps_owned [OF k2])
  have "keeps F C {} w2 (snd r)" unfolding r_def by (rule keeps_syncChildren [OF upd c o2])
  then have k3: "keeps F C {c} w2 (snd r)" by (rule keeps_mono) simp
  have k: "keeps F C {c} w (snd r)" by (rule keeps_trans [OF keeps_trans [OF k1 k2] k3])
  have e: "setTimelinePosition upd c start cur doActions w =
      (case r of (Done, w3) \<Rightarrow> (Done, if doActions then emit (actionCalls c (actions (heap w3 c)) start cur) w3 else w3)
       | r \<Rightarrow> r)"
    by (simp add: setTimelinePosition_def Let_def w1_def w2_def r_def)
  show ?thesis
  proof (cases r)
    case (Pair st w3)
    have k3': "keeps F C {c} w w3" using k Pair by simp
    have "keeps F C {c} w3 (emit (actionCalls c (actions (heap w3 c)) start cur) w3)"
      by (rule keeps_same_heap [OF keeps_owned [OF k3']]) simp
    then have "keeps F C {c} w (emit (actionCalls c (actions (heap w3 c)) start cur) w3)"
      by (rule keeps_trans [OF k3'])
    then show ?thesis using e Pair k3' by (cases st) simp_all
  qed
qed

lemma ownedRegion_derived: "ownedRegion (heap w) F C \<Longrightarrow> ownedRegion (heap (derived c w)) F C"
  unfolding derived_def
  using ownedRegion_plain [where f = deriveFrame and y = c and w = w and F = F and C = C]
  by (simp add: fixedPart_deriveFrame) (simp add: deriveFrame_def Let_def)

lemma keeps_derived:
  assumes o: "ownedRegion (heap w) F C" and d: "d \<in> F" "d \<notin> C"
  shows "keeps F C {} w (derived d w)"
proof (cases "mode (heap w d) \<noteq> Some INDEPENDENT")
  case True
  have "keeps F C {} w (modify d deriveFrame w)"
    by (rule keeps_plain [where f = deriveFrame, OF o d(1)])
       (use d in \<open>simp_all add: fixedPart_deriveFrame\<close>, simp_all add: deriveFrame_def Let_def)
  then show ?thesis using True by (simp add: derived_def)
next
  case False
  then show ?thesis using keeps_refl [OF o] by (simp add: derived_def)
qed

lemma keeps_updateTimeline_step:
  assumes upd: "\<And>d w. ownedRegion (heap w) F C \<Longrightarrow> d \<in> F \<Longrightarrow> d \<notin> C \<Longrightarrow> keeps F C {} w (snd (updateTimeline k d w))"
    and o: "ownedRegion (heap w) F C" and c: "c \<in> F"
  shows "keeps F C {c} (derived c w) (snd (updateTimeline (Suc k) c w))"
proof -
  define w1 where "w1 = derived c w"
  define r where "r = setTimelinePosition (updateTimeline k) c
      (if js_lt (prevPos (heap w1 c)) (Num 0) then Num 0 else prevPos (heap w1 c))
      (currentFrame (heap w1 c))
      (if mode (heap w c) \<noteq> Some INDEPENDENT then False else actionsEnabled (heap w1 c)) w1"
  have o1: "ownedRegion (heap w1) F C" unfolding w1_def by (rule ownedRegion_derived [OF o])
  have k: "keeps F C {c} w1 (snd r)" unfolding r_def by (rule keeps_setTimelinePosition [OF upd c o1])
  show ?thesis
  proof (cases "js_eq (prevPos (heap w1 c)) (currentFrame (heap w1 c))")
    case True
    then have "updateTimeline (Suc k) c w = (Done, w1)"
      by (simp add: Let_def w1_def derived_def)
    then show ?thesis using keeps_refl [OF o1] by (simp add: w1_def)
  next
    case False
    then have e: "updateTimeline (Suc k) c w =
        (case r of (Done, w2) \<Rightarrow> (Done, modify c (\<lambda>m. m\<lparr>prevPos := currentFrame m\<rparr>) w2) | r \<Rightarrow> r)"
      by (simp add: Let_def w1_def derived_def r_def)
    show ?thesis
    proof (cases r)
      case (Pair st w2)
      have k2: "keeps F C {c} w1 w2" using k Pair by simp
      have "keeps F C {c} w2 (modify c (\<lambda>m. m\<lparr>prevPos := currentFrame m\<rparr>) w2)"
        by (rule keeps_plain [where f = "\<lambda>m. m\<lparr>prevPos := currentFrame m\<rparr>", OF keeps_owned [OF k2] c])
           (simp_all add: fixedPart_def)
      then have "keeps F C {c} w1 (modify c (\<lambda>m. m\<lparr>prevPos := currentFrame m\<rparr>) w2)"
        by (rule keeps_trans [OF k2])
      then show ?thesis using e Pair k2 by (cases st) (simp_all add: w1_def)
    qed
  qed
qed

lemma keeps_updateTimeline_nested:
  "ownedRegion (heap w) F C \<Longrightarrow> d \<in> F \<Longrightarrow> d \<notin> C \<Longrightarrow> keeps F C {} w (snd (updateTimeline k d w))"
proof (induction k arbitrary: d w)
  case 0
  then show ?case by (simp add: keeps_refl)
next
  case (Suc k)
  have k1: "keeps F C {} w (derived d w)" by (rule keeps_derived [OF Suc.prems])
  have "keeps F C {d} (derived d w) (snd (updateTimeline (Suc k) d w))"
    by (rule keeps_updateTimeline_step [OF Suc.IH Suc.prems(1,2)])
  then have k2: "keeps F C {} (derived d w) (snd (updateTimeline (Suc k) d w))"
    by (rule keeps_mono) (use Suc.prems(3) in simp)
  show ?case by (rule keeps_trans [OF k1 k2])
qed

lemma keeps_updateTimeline:
  "ownedRegion (heap w) F C \<Longrightarrow> c \<in> F \<Longrightarrow> keeps F C {c} (derived c w) (snd (updateTimeline (Suc k) c w))"
  by (rule keeps_updateTimeline_step [OF keeps_updateTimeline_nested])

lemma resolvedFrame_cong:
  "fixedPart m' = fixedPart m \<Longrightarrow> synchOffset m' = synchOffset m \<Longrightarrow> mode m \<noteq> Some INDEPENDENT
   \<Longrightarrow> resolvedFrame m' = currentFrame (deriveFrame m)"
  by (simp add: resolvedFrame_def deriveFrame_def fixedPart_def Let_def)

lemma sync_one_child:
  assumes o: "ownedRegion (heap w) F C" and d: "d \<in> F" "d \<in> C"
    and m: "mode (heap w d) = Some SYNCHED"
    and r: "updateTimeline k d (modify d (setSynchOffset cur) w) = (Done, w2)"
  shows "ownedRegion (heap w2) F C"
    and "\<And>y. fixedPart (heap w2 y) = fixedPart (heap w y)"
    and "\<And>y. y \<notin> F \<Longrightarrow> heap w2 y = heap w y"
    and "\<And>y. y \<in> C \<Longrightarrow> y \<noteq> d \<Longrightarrow> heap w2 y = heap w y"
    and "synchedAt cur (heap w2 d)"
proof -
  define w1 where "w1 = modify d (setSynchOffset cur) w"
  obtain k' where k: "k = Suc k'" using r by (cases k) simp_all
  have o1: "ownedRegion (heap w1) F C" unfolding w1_def
    by (rule ownedRegion_plain [where f = "setSynchOffset cur", OF o])
       (simp_all add: fixedPart_setSynchOffset, simp_all add: setSynchOffset_def)
  have h1: "heap w1 y = (if y = d then setSynchOffset cur (heap w d) else heap w y)" for y
    by (simp add: w1_def heap_modify)
  have m1: "mode (heap w1 d) = Some SYNCHED" using m by (simp add: h1 setSynchOffset_def)
  have hd: "heap (derived d w1) y = (if y = d then deriveFrame (heap w1 d) else heap w1 y)" for y
    using m1 by (simp add: derived_def heap_modify)
  have "keeps F C {d} (derived d w1) (snd (updateTimeline (Suc k') d w1))"
    by (rule keeps_updateTimeline [OF o1 d(1)])
  then have kp: "keeps F C {d} (derived d w1) w2" using r k by (simp add: w1_def)
  note fr = keeps_framed [OF kp]
  show "ownedRegion (heap w2) F C" by (rule keeps_owned [OF kp])
  show fx: "fixedPart (heap w2 y) = fixedPart (heap w y)" for y
    using framed_fixed [OF fr, of y] by (simp add: hd h1 fixedPart_deriveFrame fixedPart_setSynchOffset)
  show "heap w2 y = heap w y" if "y \<notin> F" for y
    using framed_outside [OF fr that] that d(1) by (auto simp: hd h1)
  show "heap w2 y = heap w y" if "y \<in> C" "y \<noteq> d" for y
    using framed_protected [OF fr that(1)] that(2) by (simp add: hd h1)
  have so: "synchOffset (heap w2 d) = synchOffset (heap w1 d)"
    and cf: "currentFrame (heap w2 d) = currentFrame (deriveFrame (heap w1 d))"
    using framed_offset [OF fr d(2)] by (simp_all add: hd deriveFrame_def Let_def)
  have fx1: "fixedPart (heap w2 d) = fixedPart (heap w1 d)"
    using fx [of d] by (simp add: h1 fixedPart_setSynchOffset)
  have rf: "resolvedFrame (heap w2 d) = currentFrame (deriveFrame (heap w1 d))"
    using fx1 so by (rule resolvedFrame_cong) (simp add: m1)
  have psp: "parentStartPosition (heap w2 d) = parentStartPosition (heap w d)"
    using fx [of d] by (simp add: fixedPart_def)
  have "synchOffset (heap w2 d) = js_sub cur (case parentStartPosition (heap w2 d) of None \<Rightarrow> NaN | Some s \<Rightarrow> Num s)"
    using so psp by (simp add: h1 setSynchOffset_def)
  moreover have "prevPos (heap w2 d) = currentFrame (heap w2 d)"
    using updateTimeline_prevPos [OF r [folded w1_def]] .
  ultimately show "synchedAt cur (heap w2 d)" using cf rf by (simp add: synchedAt_def)
qed

lemma synchedAt_cong:
  "heap w' d = heap w d \<Longrightarrow> synchedAt cur (heap w d) \<Longrightarrow> synchedAt cur (heap w' d)"
  by simp

lemma sync_loop:
  assumes p: "p \<notin> F"
  shows "ownedRegion (heap w) F C \<Longrightarrow> set (children (heap w p)) \<subseteq> C
    \<Longrightarrow> (\<And>d. d \<in> set (children (heap w p)) \<Longrightarrow> mode (heap w d) = Some SYNCHED \<Longrightarrow> d \<in> F)
    \<Longrightarrow> len \<le> length (children (heap w p))
    \<Longrightarrow> syncChildren (updateTimeline k) p cur i len w = (Done, w')
    \<Longrightarrow> (\<forall>y. fixedPart (heap w' y) = fixedPart (heap w y))
      \<and> (\<forall>y. y \<notin> F \<longrightarrow> heap w' y = heap w y)
      \<and> (\<forall>y\<in>C. y \<notin> set (drop i (take len (children (heap w p)))) \<longrightarrow> heap w' y = heap w y)
      \<and> (\<forall>d\<in>set (drop i (take len (children (heap w p)))).
            mode (heap w d) = Some SYNCHED \<longrightarrow> synchedAt cur (heap w' d))"
proof (induction "len - i" arbitrary: i w)
  case 0
  then have "w' = w" by (simp add: syncChildren.simps)
  moreover have "drop i (take len (children (heap w p))) = []" using 0 by simp
  ultimately show ?case by simp
next
  case (Suc n)
  then have lt: "i < len" and n: "n = len - Suc i" by linarith+
  note o = Suc.prems(1) and sub = Suc.prems(2) and inF = Suc.prems(3) and len = Suc.prems(4)
    and run = Suc.prems(5)
  let ?cs = "children (heap w p)"
  define d where "d = ?cs ! i"
  have inb: "i < length ?cs" using lt len by simp
  have dcs: "d \<in> set ?cs" using inb by (simp add: d_def)
  have dC: "d \<in> C" using dcs sub by blast
  have dr: "drop i (take len ?cs) = d # drop (Suc i) (take len ?cs)"
    using lt inb by (simp add: d_def Cons_nth_drop_Suc [symmetric])
  show ?case
  proof (cases "mode (heap w d) = Some SYNCHED")
    case False
    then have "syncChildren (updateTimeline k) p cur (Suc i) len w = (Done, w')"
      using run lt inb by (subst (asm) syncChildren.simps) (simp add: d_def Let_def)
    from Suc.hyps(1) [OF n o sub inF len this] False show ?thesis
      by (simp add: dr)
  next
    case True
    have dF: "d \<in> F" by (rule inF [OF dcs True])
    define r where "r = updateTimeline k d (modify d (setSynchOffset cur) w)"
    have e: "syncChildren (updateTimeline k) p cur i len w =
        (case r of (Done, w2) \<Rightarrow> syncChildren (updateTimeline k) p cur (Suc i) len w2 | r \<Rightarrow> r)"
      using lt inb True by (subst syncChildren.simps) (simp add: d_def r_def Let_def)
    obtain w2 where r2: "r = (Done, w2)"
      and rest: "syncChildren (updateTimeline k) p cur (Suc i) len w2 = (Done, w')"
      using run e by (cases r; cases "fst r") auto
    note one = sync_one_child [OF o dF dC True r2 [unfolded r_def]]
    have hp: "heap w2 p = heap w p" by (rule one(3) [OF p])
    have md: "mode (heap w2 y) = mode (heap w y)" for y using one(2) [of y] by (simp add: fixedPart_def)
    have ih: "(\<forall>y. fixedPart (heap w' y) = fixedPart (heap w2 y))
      \<and> (\<forall>y. y \<notin> F \<longrightarrow> heap w' y = heap w2 y)
      \<and> (\<forall>y\<in>C. y \<notin> set (drop (Suc i) (take len ?cs)) \<longrightarrow> heap w' y = heap w2 y)
      \<and> (\<forall>d\<in>set (drop (Suc i) (take len ?cs)). mode (heap w d) = Some SYNCHED \<longrightarrow> synchedAt cur (heap w' d))"
      using Suc.hyps(1) [OF n one(1)] sub inF len rest by (simp add: hp md)
    show ?thesis
    proof (intro conjI allI ballI impI)
      fix y
      show "fixedPart (heap w' y) = fixedPart (heap w y)" using ih one(2) [of y] by simp
      show "heap w' y = heap w y" if "y \<notin> F" using ih one(3) [OF that] that by simp
      show "heap w' y = heap w y" if "y \<in> C" "y \<notin> set (drop i (take len ?cs))"
      proof -
        have "y \<noteq> d" "y \<notin> set (drop (Suc i) (take len ?cs))" using that(2) by (simp_all add: dr)
        then show ?thesis using ih one(4) [OF that(1)] that(1) by simp
      qed
    next
      fix x assume x: "x \<in> set (drop i (take len ?cs))" and mx: "mode (heap w x) = Some SYNCHED"
      show "synchedAt cur (heap w' x)"
      proof (cases "x \<in> set (drop (Suc i) (take len ?cs))")
        case True
        then show ?thesis using ih mx by blast
      next
        case False
        then have xd: "x = d" using x by (simp add: dr)
        have "heap w' d = heap w2 d" using ih dC False xd by blast
        then show ?thesis using one(5) xd by simp
      qed
    qed
  qed
qed

lemma synched_children_are_resolved:
  assumes "ownedRegion (heap w) F C" "p \<notin> F" "set (children (heap w p)) \<subseteq> C"
    and "\<forall>d\<in>set (children (heap w p)). mode (heap w d) = Some SYNCHED \<longrightarrow> d \<in> F"
    and "syncChildren (updateTimeline k) p cur 0 (length (children (heap w p))) w = (Done, w')"
  shows "children (heap w' p) = children (heap w p)
    \<and> (\<forall>d\<in>set (children (heap w' p)). mode (heap w' d) = Some SYNCHED \<longrightarrow> synchedAt cur (heap w' d))"
proof -
  have inF: "\<And>d. d \<in> set (children (heap w p)) \<Longrightarrow> mode (heap w d) = Some SYNCHED \<Longrightarrow> d \<in> F"
    using assms(4) by blast
  note l = sync_loop [OF assms(2) assms(1) assms(3) inF order_refl assms(5)]
  have hp: "heap w' p = heap w p" using l assms(2) by blast
  have md: "mode (heap w' y) = mode (heap w y)" for y
  proof -
    have "fixedPart (heap w' y) = fixedPart (heap w y)" using l by blast
    then show ?thesis by (simp add: fixedPart_def)
  qed
  show ?thesis using l by (simp add: hp md)
qed

lemma parentReady_refl: "ownedRegion (heap w) F C \<Longrightarrow> set (children (heap w p)) \<subseteq> C \<Longrightarrow> parentReady F C p w w"
  by (simp add: parentReady_def)

lemma parentReady_trans: "parentReady F C p w w1 \<Longrightarrow> parentReady F C p w1 w2 \<Longrightarrow> parentReady F C p w w2"
  by (simp add: parentReady_def)

lemma parentReady_same_heap:
  "ownedRegion (heap w) F C \<Longrightarrow> set (children (heap w p)) \<subseteq> C \<Longrightarrow> heap w' = heap w \<Longrightarrow> parentReady F C p w w'"
  by (simp add: parentReady_def)

lemma parentReady_modify:
  assumes o: "ownedRegion (heap w) F C" and cp: "set (children (heap w p)) \<subseteq> C" and p: "p \<notin> F"
    and f: "fixedPart (f (heap w y)) = fixedPart (heap w y)"
    and ch: "y \<noteq> p \<Longrightarrow> set (children (f (heap w y))) \<subseteq> set (children (heap w y))"
    and chp: "y = p \<Longrightarrow> set (children (f (heap w y))) \<subseteq> C"
    and pa: "y \<notin> C \<Longrightarrow> parent (f (heap w y)) = parent (heap w y)"
  shows "parentReady F C p w (modify y f w)"
proof -
  have o': "ownedRegion ((heap w)(y := f (heap w y))) F C"
  proof (rule ownedRegion_upd [where h = "heap w" and y = y and m' = "f (heap w y)", OF o f])
    assume y: "y \<in> F"
    then have "y \<noteq> p" using p by auto
    then show "set (children (f (heap w y))) \<subseteq> F - C"
      using ch ownedRegion_children [OF o y] by blast
  next
    fix x assume x: "x \<in> F" and t: "y \<in> targets (heap w x)"
    then have "y \<notin> C" using ownedRegion_targets [OF o x] by auto
    then show "parent (f (heap w y)) = None \<or> parent (f (heap w y)) = Some x"
      using pa ownedRegion_parent [OF o x t] by simp
  qed
  have c': "set (children (((heap w)(y := f (heap w y))) p)) \<subseteq> C"
    using cp chp by (cases "y = p") simp_all
  have f': "fixedPart (((heap w)(y := f (heap w y))) z) = fixedPart (heap w z)" for z
    using f by (cases "z = y") simp_all
  show ?thesis using o' c' f' by (simp add: parentReady_def heap_modify')
qed

lemma parentReady_owned: "parentReady F C p w w' \<Longrightarrow> ownedRegion (heap w') F C"
  by (simp add: parentReady_def)

lemma parentReady_children: "parentReady F C p w w' \<Longrightarrow> set (children (heap w' p)) \<subseteq> C"
  by (simp add: parentReady_def)

lemma parentReady_fixed: "parentReady F C p w w' \<Longrightarrow> fixedPart (heap w' y) = fixedPart (heap w y)"
  by (simp add: parentReady_def)

lemma parentReady_takeOut:
  assumes o: "ownedRegion (heap w) F C" and cp: "set (children (heap w p)) \<subseteq> C" and p: "p \<notin> F"
    and t: "t \<in> C"
  shows "parentReady F C p w (takeOut q t w)"
proof (cases "t \<in> set (children (heap w q))")
  case False
  then show ?thesis using parentReady_refl [OF o cp] by (simp add: takeOut_def)
next
  case True
  define w1 where "w1 = modify t (\<lambda>m. m\<lparr>parent := None\<rparr>) w"
  have k1: "parentReady F C p w w1" unfolding w1_def
    by (rule parentReady_modify [where f = "\<lambda>m. m\<lparr>parent := None\<rparr>", OF o cp p])
       (use t cp in \<open>simp_all add: fixedPart_def\<close>)
  have "parentReady F C p w1 (modify q (\<lambda>m. m\<lparr>children := remove1 t (children m)\<rparr>) w1)"
  proof (rule parentReady_modify [where f = "\<lambda>m. m\<lparr>children := remove1 t (children m)\<rparr>",
        OF parentReady_owned [OF k1] parentReady_children [OF k1] p])
    show "fixedPart ((heap w1 q)\<lparr>children := remove1 t (children (heap w1 q))\<rparr>) = fixedPart (heap w1 q)"
      by (simp add: fixedPart_def)
    show "set (children ((heap w1 q)\<lparr>children := remove1 t (children (heap w1 q))\<rparr>)) \<subseteq> set (children (heap w1 q))"
      using set_remove1_subset [of t "children (heap w1 q)"] by simp
    show "set (children ((heap w1 q)\<lparr>children := remove1 t (children (heap w1 q))\<rparr>)) \<subseteq> C" if "q = p"
      using set_remove1_subset [of t "children (heap w1 q)"] parentReady_children [OF k1] that by auto
    show "parent ((heap w1 q)\<lparr>children := remove1 t (children (heap w1 q))\<rparr>) = parent (heap w1 q)"
      by simp
  qed
  then have "parentReady F C p w (modify q (\<lambda>m. m\<lparr>children := remove1 t (children m)\<rparr>) w1)"
    by (rule parentReady_trans [OF k1])
  then show ?thesis using True by (simp add: takeOut_def w1_def)
qed

lemma parentReady_timedChild:
  assumes o: "ownedRegion (heap w) F C" and cp: "set (children (heap w p)) \<subseteq> C" and p: "p \<notin> F"
    and t: "tc_target tline \<in> C"
  shows "parentReady F C p w (timedChild p cur tline w)"
proof -
  let ?t = "tc_target tline"
  have emitted: "parentReady F C p w (emit es w)" for es
    by (rule parentReady_same_heap [OF o cp]) simp
  have add: "parentReady F C p w (addChild p ?t w)"
  proof -
    define w0 where "w0 = emit [AddChild p ?t] w"
    define w1 where "w1 = (case parent (heap w0 ?t) of None \<Rightarrow> w0 | Some q \<Rightarrow> takeOut q ?t w0)"
    define w2 where "w2 = modify ?t (\<lambda>m. m\<lparr>parent := Some p\<rparr>) w1"
    define w3 where "w3 = modify p (\<lambda>m. m\<lparr>children := children m @ [?t]\<rparr>) w2"
    have e: "addChild p ?t w = w3"
      by (simp add: addChild_def Let_def w0_def w1_def w2_def w3_def split: option.split)
    have k0: "parentReady F C p w w0" unfolding w0_def by (rule emitted)
    have "parentReady F C p w0 w1"
    proof (cases "parent (heap w0 ?t)")
      case None
      then show ?thesis using parentReady_refl [OF parentReady_owned [OF k0] parentReady_children [OF k0]]
        by (simp add: w1_def)
    next
      case (Some q)
      then show ?thesis
        using parentReady_takeOut [OF parentReady_owned [OF k0] parentReady_children [OF k0] p t, of q]
        by (simp add: w1_def)
    qed
    then have k1: "parentReady F C p w w1" by (rule parentReady_trans [OF k0])
    have "parentReady F C p w1 w2" unfolding w2_def
      by (rule parentReady_modify [where f = "\<lambda>m. m\<lparr>parent := Some p\<rparr>",
            OF parentReady_owned [OF k1] parentReady_children [OF k1] p])
         (use t parentReady_children [OF k1] in \<open>simp_all add: fixedPart_def\<close>)
    then have k2: "parentReady F C p w w2" by (rule parentReady_trans [OF k1])
    have "parentReady F C p w2 w3" unfolding w3_def
      by (rule parentReady_modify [where f = "\<lambda>m. m\<lparr>children := children m @ [?t]\<rparr>",
            OF parentReady_owned [OF k2] parentReady_children [OF k2] p])
         (use t parentReady_children [OF k2] in \<open>simp_all add: fixedPart_def\<close>)
    then show ?thesis unfolding e by (rule parentReady_trans [OF k2])
  qed
  have rs: "parentReady F C p w (reset ?t (addChild p ?t w))"
  proof -
    have "parentReady F C p (addChild p ?t w) (reset ?t (addChild p ?t w))" unfolding reset_def
      by (rule parentReady_modify [where f = "\<lambda>m. m\<lparr>prevPos := Num (- 1), elapsedTime := Some 0, currentFrame := Num 0\<rparr>",
            OF parentReady_owned [OF add] parentReady_children [OF add] p])
         (use parentReady_children [OF add] in \<open>simp_all add: fixedPart_def\<close>)
    then show ?thesis by (rule parentReady_trans [OF add])
  qed
  have rm: "parentReady F C p w (removeChild p ?t w)"
  proof -
    have k0: "parentReady F C p w (emit [RemoveChild p ?t] w)" by (rule emitted)
    have "parentReady F C p (emit [RemoveChild p ?t] w) (takeOut p ?t (emit [RemoveChild p ?t] w))"
      by (rule parentReady_takeOut [OF parentReady_owned [OF k0] parentReady_children [OF k0] p t])
    then show ?thesis unfolding removeChild_def by (rule parentReady_trans [OF k0])
  qed
  show ?thesis using add rs rm parentReady_refl [OF o cp] by (simp add: timedChild_def Let_def)
qed

lemma parentReady_timedChildren:
  assumes p: "p \<notin> F"
  shows "ownedRegion (heap w) F C \<Longrightarrow> set (children (heap w p)) \<subseteq> C \<Longrightarrow> tc_target ` set tls \<subseteq> C
    \<Longrightarrow> parentReady F C p w (timedChildren p cur tls w)"
proof (induction tls arbitrary: w)
  case Nil
  then show ?case by (simp add: parentReady_refl)
next
  case (Cons tline tls)
  have k1: "parentReady F C p w (timedChild p cur tline w)"
    by (rule parentReady_timedChild [OF Cons.prems(1,2) p]) (use Cons.prems(3) in simp)
  have "parentReady F C p (timedChild p cur tline w) (timedChildren p cur tls (timedChild p cur tline w))"
    by (rule Cons.IH [OF parentReady_owned [OF k1] parentReady_children [OF k1]]) (use Cons.prems(3) in simp)
  then show ?case using parentReady_trans [OF k1] by simp
qed


lemma parent_pass_when_done:
  assumes o: "ownedRegion (heap w) F C" and p: "p \<notin> F"
    and c: "set (children (heap w p)) \<union> targets (heap w p) \<subseteq> C"
    and s: "\<forall>d\<in>C. mode (heap w d) = Some SYNCHED \<longrightarrow> d \<in> F"
    and run: "setTimelinePosition (updateTimeline k) p start cur doActions w = (Done, w')"
  shows "\<forall>d\<in>set (children (heap w' p)). mode (heap w' d) = Some SYNCHED \<longrightarrow> synchedAt cur (heap w' d)"
proof -
  define w1 where "w1 = emit (tweenCalls p (timelines (heap w p)) cur) w"
  define w2 where "w2 = timedChildren p cur (timedChildTimelines (heap w1 p)) w1"
  define r where "r = syncChildren (updateTimeline k) p cur 0 (length (children (heap w2 p))) w2"
  have h1: "heap w1 = heap w" by (simp add: w1_def)
  have "parentReady F C p w1 w2" unfolding w2_def
    by (rule parentReady_timedChildren [OF p]) (use o c in \<open>auto simp: h1 targets_def\<close>)
  then have k2: "parentReady F C p w w2" by (simp add: parentReady_def h1)
  have md: "mode (heap w2 y) = mode (heap w y)" for y
    using parentReady_fixed [OF k2, of y] by (simp add: fixedPart_def)
  have e: "setTimelinePosition (updateTimeline k) p start cur doActions w =
      (case r of (Done, w3) \<Rightarrow> (Done, if doActions then emit (actionCalls p (actions (heap w3 p)) start cur) w3 else w3)
       | r \<Rightarrow> r)"
    by (simp add: setTimelinePosition_def Let_def w1_def w2_def r_def)
  obtain w3 where r3: "r = (Done, w3)" and h': "heap w' = heap w3"
    using run e by (cases r; cases "fst r") (auto split: if_splits)
  have s2: "\<forall>d\<in>set (children (heap w2 p)). mode (heap w2 d) = Some SYNCHED \<longrightarrow> d \<in> F"
    using s parentReady_children [OF k2] by (auto simp: md)
  show ?thesis
    using synched_children_are_resolved [OF parentReady_owned [OF k2] p parentReady_children [OF k2] s2 r3 [unfolded r_def]]
    by (simp add: h')
qed


lemma kinShrinks_fixed: "kinShrinks h h' \<Longrightarrow> fixedPart (h' y) = fixedPart (h y)"
  by (simp add: kinShrinks_def)

lemma kinShrinks_targets: "kinShrinks h h' \<Longrightarrow> targets (h' y) = targets (h y)"
  by (rule targets_fixed) (rule kinShrinks_fixed)

lemma kinShrinks_children:
  "kinShrinks h h' \<Longrightarrow> set (children (h' y)) \<subseteq> set (children (h y)) \<union> targets (h y)"
  by (simp add: kinShrinks_def)

lemma kinShrinks_refl: "kinShrinks h h"
  by (simp add: kinShrinks_def)

lemma kinShrinks_trans:
  assumes a: "kinShrinks h h1" and b: "kinShrinks h1 h2"
  shows "kinShrinks h h2"
  unfolding kinShrinks_def
proof (intro allI conjI)
  fix y
  show "fixedPart (h2 y) = fixedPart (h y)"
    using kinShrinks_fixed [OF a, of y] kinShrinks_fixed [OF b, of y] by simp
  show "set (children (h2 y)) \<subseteq> set (children (h y)) \<union> targets (h y)"
    using kinShrinks_children [OF a, of y] kinShrinks_children [OF b, of y] kinShrinks_targets [OF a, of y]
    by blast
qed

lemma kinShrinks_modify:
  assumes "fixedPart (f (heap w y)) = fixedPart (heap w y)"
    and "set (children (f (heap w y))) \<subseteq> set (children (heap w y)) \<union> targets (heap w y)"
  shows "kinShrinks (heap w) (heap (modify y f w))"
  unfolding kinShrinks_def heap_modify'
proof (intro allI conjI)
  fix z
  show "fixedPart (((heap w)(y := f (heap w y))) z) = fixedPart (heap w z)"
    using assms(1) by (cases "z = y") simp_all
  show "set (children (((heap w)(y := f (heap w y))) z)) \<subseteq> set (children (heap w z)) \<union> targets (heap w z)"
    using assms(2) by (cases "z = y") simp_all
qed

lemma kinShrinks_emit: "kinShrinks (heap w) (heap (emit es w))"
  by (simp add: kinShrinks_refl)

lemma kinShrinks_takeOut: "kinShrinks (heap w) (heap (takeOut q t w))"
proof (cases "t \<in> set (children (heap w q))")
  case False
  then show ?thesis by (simp add: takeOut_def kinShrinks_refl)
next
  case True
  define w1 where "w1 = modify t (\<lambda>m. m\<lparr>parent := None\<rparr>) w"
  have k1: "kinShrinks (heap w) (heap w1)" unfolding w1_def
    by (rule kinShrinks_modify) (simp_all add: fixedPart_def)
  have k2: "kinShrinks (heap w1) (heap (modify q (\<lambda>m. m\<lparr>children := remove1 t (children m)\<rparr>) w1))"
  proof (rule kinShrinks_modify)
    show "fixedPart ((heap w1 q)\<lparr>children := remove1 t (children (heap w1 q))\<rparr>) = fixedPart (heap w1 q)"
      by (simp add: fixedPart_def)
    show "set (children ((heap w1 q)\<lparr>children := remove1 t (children (heap w1 q))\<rparr>))
        \<subseteq> set (children (heap w1 q)) \<union> targets (heap w1 q)"
      using set_remove1_subset [of t "children (heap w1 q)"] by auto
  qed
  show ?thesis using True kinShrinks_trans [OF k1 k2] by (simp add: takeOut_def w1_def)
qed

lemma kinShrinks_removeChild: "kinShrinks (heap w) (heap (removeChild c t w))"
  unfolding removeChild_def using kinShrinks_takeOut [of "emit [RemoveChild c t] w" c t] by simp

lemma kinShrinks_reset: "kinShrinks (heap w) (heap (reset t w))"
  unfolding reset_def by (rule kinShrinks_modify) (simp_all add: fixedPart_def)

lemma kinShrinks_addChild:
  assumes t: "t \<in> targets (heap w c)"
  shows "kinShrinks (heap w) (heap (addChild c t w))"
proof -
  define w0 where "w0 = emit [AddChild c t] w"
  define w1 where "w1 = (case parent (heap w0 t) of None \<Rightarrow> w0 | Some q \<Rightarrow> takeOut q t w0)"
  define w2 where "w2 = modify t (\<lambda>m. m\<lparr>parent := Some c\<rparr>) w1"
  define w3 where "w3 = modify c (\<lambda>m. m\<lparr>children := children m @ [t]\<rparr>) w2"
  have e: "addChild c t w = w3"
    by (simp add: addChild_def Let_def w0_def w1_def w2_def w3_def split: option.split)
  have k0: "kinShrinks (heap w) (heap w0)" by (simp add: w0_def kinShrinks_refl)
  have "kinShrinks (heap w0) (heap w1)"
    unfolding w1_def by (cases "parent (heap w0 t)") (simp_all add: kinShrinks_refl kinShrinks_takeOut)
  then have k1: "kinShrinks (heap w) (heap w1)" by (rule kinShrinks_trans [OF k0])
  have "kinShrinks (heap w1) (heap w2)" unfolding w2_def
    by (rule kinShrinks_modify) (simp_all add: fixedPart_def)
  then have k2: "kinShrinks (heap w) (heap w2)" by (rule kinShrinks_trans [OF k1])
  have t2: "t \<in> targets (heap w2 c)" using t kinShrinks_targets [OF k2, of c] by simp
  have "kinShrinks (heap w2) (heap w3)" unfolding w3_def
    by (rule kinShrinks_modify) (use t2 in \<open>simp_all add: fixedPart_def\<close>)
  then show ?thesis unfolding e by (rule kinShrinks_trans [OF k2])
qed

lemma kinShrinks_timedChild:
  assumes t: "tc_target tline \<in> targets (heap w c)"
  shows "kinShrinks (heap w) (heap (timedChild c cur tline w))"
proof -
  have a: "kinShrinks (heap w) (heap (addChild c (tc_target tline) w))" by (rule kinShrinks_addChild [OF t])
  have "kinShrinks (heap w) (heap (reset (tc_target tline) (addChild c (tc_target tline) w)))"
    by (rule kinShrinks_trans [OF a kinShrinks_reset])
  then show ?thesis using a kinShrinks_removeChild [of w c "tc_target tline"] kinShrinks_refl [of "heap w"]
    by (simp add: timedChild_def Let_def)
qed

lemma kinShrinks_timedChildren:
  "tc_target ` set tls \<subseteq> targets (heap w c) \<Longrightarrow> kinShrinks (heap w) (heap (timedChildren c cur tls w))"
proof (induction tls arbitrary: w)
  case Nil
  then show ?case by (simp add: kinShrinks_refl)
next
  case (Cons tline tls)
  have k1: "kinShrinks (heap w) (heap (timedChild c cur tline w))"
    by (rule kinShrinks_timedChild) (use Cons.prems in simp)
  have "tc_target ` set tls \<subseteq> targets (heap (timedChild c cur tline w) c)"
    using Cons.prems kinShrinks_targets [OF k1, of c] by simp
  then have "kinShrinks (heap (timedChild c cur tline w)) (heap (timedChildren c cur tls (timedChild c cur tline w)))"
    by (rule Cons.IH)
  then show ?case using kinShrinks_trans [OF k1] by simp
qed

lemma kinShrinks_syncChildren:
  assumes upd: "\<And>d w. kinShrinks (heap w) (heap (snd (upd d w)))"
  shows "kinShrinks (heap w) (heap (snd (syncChildren upd c cur i len w)))"
proof (induction "len - i" arbitrary: i w)
  case 0
  then show ?case by (simp add: syncChildren.simps kinShrinks_refl)
next
  case (Suc n)
  then have lt: "i < len" and n: "n = len - Suc i" by linarith+
  note IH = Suc.hyps(1) [OF n]
  show ?case
  proof (cases "i < length (children (heap w c))")
    case False
    then show ?thesis using lt by (simp add: syncChildren.simps kinShrinks_refl)
  next
    case inb: True
    define d where "d = children (heap w c) ! i"
    show ?thesis
    proof (cases "mode (heap w d) = Some SYNCHED")
      case False
      then show ?thesis using lt inb IH by (subst syncChildren.simps) (simp add: d_def Let_def)
    next
      case True
      define w1 where "w1 = modify d (setSynchOffset cur) w"
      define r where "r = upd d w1"
      have k1: "kinShrinks (heap w) (heap w1)" unfolding w1_def
        by (rule kinShrinks_modify) (simp_all add: fixedPart_setSynchOffset, simp add: setSynchOffset_def)
      have k12: "kinShrinks (heap w) (heap (snd r))"
        unfolding r_def by (rule kinShrinks_trans [OF k1 upd])
      have e: "syncChildren upd c cur i len w =
          (case r of (Done, w') \<Rightarrow> syncChildren upd c cur (Suc i) len w' | r \<Rightarrow> r)"
        using lt inb True by (subst syncChildren.simps) (simp add: d_def r_def w1_def Let_def)
      show ?thesis
      proof (cases r)
        case (Pair st w')
        have k': "kinShrinks (heap w) (heap w')" using k12 Pair by simp
        show ?thesis using e Pair k' kinShrinks_trans [OF k' IH [of w']] by (cases st) simp_all
      qed
    qed
  qed
qed

lemma kinShrinks_setTimelinePosition:
  assumes upd: "\<And>d w. kinShrinks (heap w) (heap (snd (upd d w)))"
  shows "kinShrinks (heap w) (heap (snd (setTimelinePosition upd c start cur doActions w)))"
proof -
  define w1 where "w1 = emit (tweenCalls c (timelines (heap w c)) cur) w"
  define w2 where "w2 = timedChildren c cur (timedChildTimelines (heap w1 c)) w1"
  define r where "r = syncChildren upd c cur 0 (length (children (heap w2 c))) w2"
  have h1: "heap w1 = heap w" by (simp add: w1_def)
  have "kinShrinks (heap w1) (heap w2)" unfolding w2_def
    by (rule kinShrinks_timedChildren) (simp add: targets_def)
  then have k2: "kinShrinks (heap w) (heap w2)" by (simp add: h1)
  have k3: "kinShrinks (heap w) (heap (snd r))"
    unfolding r_def by (rule kinShrinks_trans [OF k2 kinShrinks_syncChildren [of upd, OF upd]])
  have e: "setTimelinePosition upd c start cur doActions w =
      (case r of (Done, w3) \<Rightarrow> (Done, if doActions then emit (actionCalls c (actions (heap w3 c)) start cur) w3 else w3)
       | r \<Rightarrow> r)"
    by (simp add: setTimelinePosition_def Let_def w1_def w2_def r_def)
  show ?thesis using e k3 by (cases r; cases "fst r") auto
qed

lemma kinShrinks_updateTimeline: "kinShrinks (heap w) (heap (snd (updateTimeline k c w)))"
proof (induction k arbitrary: c w)
  case 0
  show ?case by (simp add: kinShrinks_refl)
next
  case (Suc k)
  define w1 where "w1 = derived c w"
  define r where "r = setTimelinePosition (updateTimeline k) c
      (if js_lt (prevPos (heap w1 c)) (Num 0) then Num 0 else prevPos (heap w1 c))
      (currentFrame (heap w1 c))
      (if mode (heap w c) \<noteq> Some INDEPENDENT then False else actionsEnabled (heap w1 c)) w1"
  have k1: "kinShrinks (heap w) (heap w1)"
  proof (cases "mode (heap w c) \<noteq> Some INDEPENDENT")
    case True
    have "kinShrinks (heap w) (heap (modify c deriveFrame w))"
      by (rule kinShrinks_modify) (simp_all add: fixedPart_deriveFrame, simp add: deriveFrame_def Let_def)
    then show ?thesis using True by (simp add: w1_def derived_def)
  next
    case False
    then show ?thesis by (simp add: w1_def derived_def kinShrinks_refl)
  qed
  have k2: "kinShrinks (heap w) (heap (snd r))"
    unfolding r_def by (rule kinShrinks_trans [OF k1 kinShrinks_setTimelinePosition [of "updateTimeline k", OF Suc.IH]])
  show ?case
  proof (cases "js_eq (prevPos (heap w1 c)) (currentFrame (heap w1 c))")
    case True
    then have "updateTimeline (Suc k) c w = (Done, w1)" by (simp add: Let_def w1_def derived_def)
    then show ?thesis using k1 by simp
  next
    case False
    then have e: "updateTimeline (Suc k) c w =
        (case r of (Done, w2) \<Rightarrow> (Done, modify c (\<lambda>m. m\<lparr>prevPos := currentFrame m\<rparr>) w2) | r \<Rightarrow> r)"
      by (simp add: Let_def w1_def derived_def r_def)
    show ?thesis
    proof (cases r)
      case (Pair st w2)
      have k': "kinShrinks (heap w) (heap w2)" using k2 Pair by simp
      have "kinShrinks (heap w2) (heap (modify c (\<lambda>m. m\<lparr>prevPos := currentFrame m\<rparr>) w2))"
        by (rule kinShrinks_modify) (simp_all add: fixedPart_def)
      then have "kinShrinks (heap w) (heap (modify c (\<lambda>m. m\<lparr>prevPos := currentFrame m\<rparr>) w2))"
        by (rule kinShrinks_trans [OF k'])
      then show ?thesis using e Pair k' by (cases st) simp_all
    qed
  qed
qed

lemma ranked_kinShrinks:
  assumes k: "kinShrinks h h'" and r: "ranked h F rk"
  shows "ranked h' F rk"
  unfolding ranked_def
proof (intro ballI)
  fix x y assume x: "x \<in> F" and y: "y \<in> set (children (h' x)) \<union> targets (h' x)"
  then have "y \<in> set (children (h x)) \<union> targets (h x)"
    using kinShrinks_children [OF k, of x] kinShrinks_targets [OF k, of x] by blast
  then show "rk y < rk x" using r x unfolding ranked_def by blast
qed


lemma ranked_less:
  "ranked h F rk \<Longrightarrow> x \<in> F \<Longrightarrow> y \<in> set (children (h x)) \<union> targets (h x) \<Longrightarrow> rk y < rk x"
  unfolding ranked_def by blast

lemma ownedRegion_below:
  assumes o: "ownedRegion h F C" and r: "ranked h F rk"
  shows "ownedRegion h {y \<in> F. rk y < n} {}"
proof (rule ownedRegionI)
  fix x assume "x \<in> {y \<in> F. rk y < n}"
  then have x: "x \<in> F" "rk x < n" by simp_all
  have lower: "rk y < n" if "y \<in> set (children (h x)) \<union> targets (h x)" for y
    using ranked_less [OF r x(1) that] x(2) by simp
  show "set (children (h x)) \<subseteq> {y \<in> F. rk y < n} - {}"
    using ownedRegion_children [OF o x(1)] lower by auto
  show "targets (h x) \<subseteq> {y \<in> F. rk y < n} - {}"
    using ownedRegion_targets [OF o x(1)] lower by auto
next
  fix x t assume "x \<in> {y \<in> F. rk y < n}" "t \<in> targets (h x)"
  then show "parent (h t) = None \<or> parent (h t) = Some x"
    using ownedRegion_parent [OF o, of x t] by simp
next
  fix x y t assume "x \<in> {y \<in> F. rk y < n}" "y \<in> {y \<in> F. rk y < n}" "t \<in> targets (h x)" "t \<in> targets (h y)"
  then show "y = x" using ownedRegion_owner [OF o, of x y t] by simp
qed

lemma nested_pass_leaves:
  assumes o: "ownedRegion (heap w) F C" and r: "ranked (heap w) F rk"
    and d: "d \<in> F" "rk d < rk c"
  shows "heap (snd (updateTimeline k d w)) c = heap w c"
proof -
  have o': "ownedRegion (heap w) {y \<in> F. rk y < rk c} {}" by (rule ownedRegion_below [OF o r])
  have "keeps {y \<in> F. rk y < rk c} {} {} w (snd (updateTimeline k d w))"
    by (rule keeps_updateTimeline_nested [OF o']) (use d in simp_all)
  then have "framed {y \<in> F. rk y < rk c} {} {} (heap w) (heap (snd (updateTimeline k d w)))"
    by (rule keeps_framed)
  then show ?thesis by (rule framed_outside) simp
qed

lemma sync_loop_ends:
  assumes IH: "\<And>d w. ownedRegion (heap w) F C \<Longrightarrow> ranked (heap w) F rk \<Longrightarrow> d \<in> F \<Longrightarrow> rk d < k
      \<Longrightarrow> fst (updateTimeline k d w) = Done"
    and c: "c \<in> F" "rk c \<le> k"
  shows "ownedRegion (heap w) F C \<Longrightarrow> ranked (heap w) F rk \<Longrightarrow> len \<le> length (children (heap w c))
    \<Longrightarrow> fst (syncChildren (updateTimeline k) c cur i len w) = Done"
proof (induction "len - i" arbitrary: i w)
  case 0
  then show ?case by (simp add: syncChildren.simps)
next
  case (Suc n)
  then have lt: "i < len" and n: "n = len - Suc i" by linarith+
  note o = Suc.prems(1) and r = Suc.prems(2) and len = Suc.prems(3)
  have inb: "i < length (children (heap w c))" using lt len by simp
  define d where "d = children (heap w c) ! i"
  have dcs: "d \<in> set (children (heap w c))" using inb by (simp add: d_def)
  have dF: "d \<in> F" "d \<notin> C" using ownedRegion_children [OF o c(1)] dcs by auto
  have rd: "rk d < rk c" by (rule ranked_less [OF r c(1)]) (use dcs in simp)
  show ?case
  proof (cases "mode (heap w d) = Some SYNCHED")
    case False
    then show ?thesis using lt inb Suc.hyps(1) [OF n o r len]
      by (subst syncChildren.simps) (simp add: d_def Let_def)
  next
    case True
    define w1 where "w1 = modify d (setSynchOffset cur) w"
    define r' where "r' = updateTimeline k d w1"
    have k1: "keeps F C {} w w1" unfolding w1_def
      by (rule keeps_plain [where f = "setSynchOffset cur", OF o dF(1)])
         (use dF in \<open>simp_all add: fixedPart_setSynchOffset\<close>, simp_all add: setSynchOffset_def)
    have o1: "ownedRegion (heap w1) F C" by (rule keeps_owned [OF k1])
    have ks1: "kinShrinks (heap w) (heap w1)" unfolding w1_def
      by (rule kinShrinks_modify) (simp_all add: fixedPart_setSynchOffset, simp add: setSynchOffset_def)
    have r1: "ranked (heap w1) F rk" by (rule ranked_kinShrinks [OF ks1 r])
    have dc: "d \<noteq> c" using rd by auto
    have c1: "heap w1 c = heap w c" using dc by (simp add: w1_def heap_modify)
    have fin: "fst r' = Done" unfolding r'_def by (rule IH [OF o1 r1 dF(1)]) (use rd c(2) in simp)
    have o2: "ownedRegion (heap (snd r')) F C"
      unfolding r'_def by (rule keeps_owned [OF keeps_updateTimeline_nested [OF o1 dF]])
    have r2: "ranked (heap (snd r')) F rk"
      unfolding r'_def by (rule ranked_kinShrinks [OF kinShrinks_updateTimeline r1])
    have c2: "heap (snd r') c = heap w c"
      unfolding r'_def using nested_pass_leaves [OF o1 r1 dF(1) rd, of k] c1 by simp
    have e: "syncChildren (updateTimeline k) c cur i len w =
        (case r' of (Done, w') \<Rightarrow> syncChildren (updateTimeline k) c cur (Suc i) len w' | r \<Rightarrow> r)"
      using lt inb True by (subst syncChildren.simps) (simp add: d_def r'_def w1_def Let_def)
    have "fst (syncChildren (updateTimeline k) c cur (Suc i) len (snd r')) = Done"
      by (rule Suc.hyps(1) [OF n o2 r2]) (use len c2 in simp)
    then show ?thesis using e fin by (cases r') simp
  qed
qed

lemma updateTimeline_ends:
  "ownedRegion (heap w) F C \<Longrightarrow> ranked (heap w) F rk \<Longrightarrow> c \<in> F \<Longrightarrow> rk c < k
   \<Longrightarrow> fst (updateTimeline k c w) = Done"
proof (induction k arbitrary: c w)
  case 0
  then show ?case by simp
next
  case (Suc k)
  note o = Suc.prems(1) and r = Suc.prems(2) and c = Suc.prems(3)
  have rc: "rk c \<le> k" using Suc.prems(4) by simp
  define w1 where "w1 = derived c w"
  define wa where "wa = emit (tweenCalls c (timelines (heap w1 c)) (currentFrame (heap w1 c))) w1"
  define wb where "wb = timedChildren c (currentFrame (heap w1 c)) (timedChildTimelines (heap wa c)) wa"
  define r' where "r' = syncChildren (updateTimeline k) c (currentFrame (heap w1 c)) 0 (length (children (heap wb c))) wb"
  have o1: "ownedRegion (heap w1) F C" unfolding w1_def by (rule ownedRegion_derived [OF o])
  have ks1: "kinShrinks (heap w) (heap w1)"
  proof (cases "mode (heap w c) \<noteq> Some INDEPENDENT")
    case True
    have "kinShrinks (heap w) (heap (modify c deriveFrame w))"
      by (rule kinShrinks_modify) (simp_all add: fixedPart_deriveFrame, simp add: deriveFrame_def Let_def)
    then show ?thesis using True by (simp add: w1_def derived_def)
  next
    case False
    then show ?thesis by (simp add: w1_def derived_def kinShrinks_refl)
  qed
  have r1: "ranked (heap w1) F rk" by (rule ranked_kinShrinks [OF ks1 r])
  have ha: "heap wa = heap w1" by (simp add: wa_def)
  have oa: "ownedRegion (heap wa) F C" using o1 ha by simp
  have ra: "ranked (heap wa) F rk" using r1 ha by simp
  have kb: "keeps F C {c} wa wb" unfolding wb_def
    by (rule keeps_timedChildren [OF c _ oa]) (simp_all add: targets_def)
  have ob: "ownedRegion (heap wb) F C" by (rule keeps_owned [OF kb])
  have "kinShrinks (heap wa) (heap wb)" unfolding wb_def
    by (rule kinShrinks_timedChildren) (simp add: targets_def)
  then have rb: "ranked (heap wb) F rk" using ra by (rule ranked_kinShrinks)
  have fin: "fst r' = Done" unfolding r'_def
    by (rule sync_loop_ends [OF Suc.IH c rc ob rb]) simp_all
  show ?case
  proof (cases "js_eq (prevPos (heap w1 c)) (currentFrame (heap w1 c))")
    case True
    then show ?thesis by (simp add: Let_def w1_def derived_def)
  next
    case False
    then have "fst (updateTimeline (Suc k) c w) = fst r'"
      by (cases r'; cases "fst r'")
        (auto simp: Let_def w1_def [symmetric, unfolded derived_def] setTimelinePosition_def
          wa_def [symmetric] wb_def [symmetric] r'_def [symmetric])
    then show ?thesis using fin by simp
  qed
qed


lemma parent_loop_ends:
  assumes p: "p \<notin> F" and bound: "\<And>x. x \<in> F \<Longrightarrow> rk x < k"
  shows "ownedRegion (heap w) F C \<Longrightarrow> ranked (heap w) F rk \<Longrightarrow> set (children (heap w p)) \<subseteq> C
    \<Longrightarrow> (\<And>d. d \<in> set (children (heap w p)) \<Longrightarrow> mode (heap w d) = Some SYNCHED \<Longrightarrow> d \<in> F)
    \<Longrightarrow> len \<le> length (children (heap w p))
    \<Longrightarrow> fst (syncChildren (updateTimeline k) p cur i len w) = Done"
proof (induction "len - i" arbitrary: i w)
  case 0
  then show ?case by (simp add: syncChildren.simps)
next
  case (Suc n)
  then have lt: "i < len" and n: "n = len - Suc i" by linarith+
  note o = Suc.prems(1) and r = Suc.prems(2) and sub = Suc.prems(3) and inF = Suc.prems(4)
    and len = Suc.prems(5)
  have inb: "i < length (children (heap w p))" using lt len by simp
  define d where "d = children (heap w p) ! i"
  have dcs: "d \<in> set (children (heap w p))" using inb by (simp add: d_def)
  have dC: "d \<in> C" using dcs sub by blast
  show ?case
  proof (cases "mode (heap w d) = Some SYNCHED")
    case False
    then show ?thesis using lt inb Suc.hyps(1) [OF n o r sub inF len]
      by (subst syncChildren.simps) (simp add: d_def Let_def)
  next
    case True
    have dF: "d \<in> F" by (rule inF [OF dcs True])
    define w1 where "w1 = modify d (setSynchOffset cur) w"
    define r' where "r' = updateTimeline k d w1"
    have o1: "ownedRegion (heap w1) F C" unfolding w1_def
      by (rule ownedRegion_plain [where f = "setSynchOffset cur", OF o])
         (simp_all add: fixedPart_setSynchOffset, simp_all add: setSynchOffset_def)
    have ks1: "kinShrinks (heap w) (heap w1)" unfolding w1_def
      by (rule kinShrinks_modify) (simp_all add: fixedPart_setSynchOffset, simp add: setSynchOffset_def)
    have r1: "ranked (heap w1) F rk" by (rule ranked_kinShrinks [OF ks1 r])
    have fin: "fst r' = Done" unfolding r'_def by (rule updateTimeline_ends [OF o1 r1 dF bound [OF dF]])
    then have r2: "updateTimeline k d (modify d (setSynchOffset cur) w) = (Done, snd r')"
      by (simp add: r'_def w1_def prod_eq_iff)
    note one = sync_one_child [OF o dF dC True r2]
    have hp: "heap (snd r') p = heap w p" by (rule one(3) [OF p])
    have md: "mode (heap (snd r') y) = mode (heap w y)" for y using one(2) [of y] by (simp add: fixedPart_def)
    have rr: "ranked (heap (snd r')) F rk"
      unfolding r'_def by (rule ranked_kinShrinks [OF kinShrinks_updateTimeline r1])
    have e: "syncChildren (updateTimeline k) p cur i len w =
        (case r' of (Done, w') \<Rightarrow> syncChildren (updateTimeline k) p cur (Suc i) len w' | r \<Rightarrow> r)"
      using lt inb True by (subst syncChildren.simps) (simp add: d_def r'_def w1_def Let_def)
    have "fst (syncChildren (updateTimeline k) p cur (Suc i) len (snd r')) = Done"
      by (rule Suc.hyps(1) [OF n one(1) rr]) (use sub inF len in \<open>simp_all add: hp md\<close>)
    then show ?thesis using e fin by (cases r') simp
  qed
qed

text \<open>
  C4, amended. Let the scene below the parent \<open>p\<close> be a tree: \<open>C\<close> holds the children of \<open>p\<close>
  and the objects its timed-child timelines attach, \<open>F\<close> the synched ones among them and
  their descendants, \<open>F\<close> is an owned region and is ranked, and the call depth \<open>k\<close>
  exceeds every rank. Then the parent's positional pass at the frame \<open>cur\<close> ends
  normally, and every child then attached to \<open>p\<close> whose mode is \<open>SYNCHED\<close> has
  \<open>_synchOffset\<close> equal to \<open>cur\<close> minus its \<open>parentStartPosition\<close> and has been resolved,
  within that pass, to the frame derived from that offset.
\<close>

theorem parent_pass_resolves_synched_children:
  assumes o: "ownedRegion (heap w) F C" and p: "p \<notin> F"
    and c: "set (children (heap w p)) \<union> targets (heap w p) \<subseteq> C"
    and s: "\<forall>d\<in>C. mode (heap w d) = Some SYNCHED \<longrightarrow> d \<in> F"
    and rk: "ranked (heap w) F rk" and bound: "\<forall>x\<in>F. rk x < k"
  shows "fst (setTimelinePosition (updateTimeline k) p start cur doActions w) = Done
    \<and> (\<forall>d\<in>set (children (heap (snd (setTimelinePosition (updateTimeline k) p start cur doActions w)) p)).
          mode (heap (snd (setTimelinePosition (updateTimeline k) p start cur doActions w)) d) = Some SYNCHED
          \<longrightarrow> synchedAt cur (heap (snd (setTimelinePosition (updateTimeline k) p start cur doActions w)) d))"
proof -
  define w1 where "w1 = emit (tweenCalls p (timelines (heap w p)) cur) w"
  define w2 where "w2 = timedChildren p cur (timedChildTimelines (heap w1 p)) w1"
  define r where "r = syncChildren (updateTimeline k) p cur 0 (length (children (heap w2 p))) w2"
  have h1: "heap w1 = heap w" by (simp add: w1_def)
  have "parentReady F C p w1 w2" unfolding w2_def
    by (rule parentReady_timedChildren [OF p]) (use o c in \<open>auto simp: h1 targets_def\<close>)
  then have k2: "parentReady F C p w w2" by (simp add: parentReady_def h1)
  have md: "mode (heap w2 y) = mode (heap w y)" for y
    using parentReady_fixed [OF k2, of y] by (simp add: fixedPart_def)
  have "kinShrinks (heap w1) (heap w2)" unfolding w2_def
    by (rule kinShrinks_timedChildren) (simp add: targets_def)
  then have r2: "ranked (heap w2) F rk" using rk by (simp add: h1 ranked_kinShrinks)
  have s2: "d \<in> F" if "d \<in> set (children (heap w2 p))" "mode (heap w2 d) = Some SYNCHED" for d
    using s parentReady_children [OF k2] that by (auto simp: md)
  have b: "rk x < k" if "x \<in> F" for x using bound that by blast
  have fin: "fst r = Done" unfolding r_def
    by (rule parent_loop_ends [OF p b parentReady_owned [OF k2] r2 parentReady_children [OF k2] s2]) simp_all
  have e: "setTimelinePosition (updateTimeline k) p start cur doActions w =
      (case r of (Done, w3) \<Rightarrow> (Done, if doActions then emit (actionCalls p (actions (heap w3 p)) start cur) w3 else w3)
       | r \<Rightarrow> r)"
    by (simp add: setTimelinePosition_def Let_def w1_def w2_def r_def)
  have d1: "fst (setTimelinePosition (updateTimeline k) p start cur doActions w) = Done"
    using e fin by (cases r) simp
  then have run: "setTimelinePosition (updateTimeline k) p start cur doActions w
      = (Done, snd (setTimelinePosition (updateTimeline k) p start cur doActions w))"
    by (simp add: prod_eq_iff)
  show ?thesis using d1 parent_pass_when_done [OF o p c s run] by simp
qed

theorem parent_pass_resolves_synched_children_witness:
  "set (children (heap family 0)) \<union> targets (heap family 0) \<subseteq> {1}
   \<and> children (heap family 1) = [2] \<and> targets (heap family 1) = {2}
   \<and> fst (setTimelinePosition (updateTimeline (Suc (Suc 0))) 0 (Num 0) (Num 3) True family) = Done
   \<and> children (heap (snd (setTimelinePosition (updateTimeline (Suc (Suc 0))) 0 (Num 0) (Num 3) True family)) 0) = [1]
   \<and> mode (heap (snd (setTimelinePosition (updateTimeline (Suc (Suc 0))) 0 (Num 0) (Num 3) True family)) 1) = Some SYNCHED
   \<and> synchedAt (Num 3) (heap (snd (setTimelinePosition (updateTimeline (Suc (Suc 0))) 0 (Num 0) (Num 3) True family)) 1)
   \<and> synchOffset (heap (snd (setTimelinePosition (updateTimeline (Suc (Suc 0))) 0 (Num 0) (Num 3) True family)) 1) = Num 3
   \<and> currentFrame (heap (snd (setTimelinePosition (updateTimeline (Suc (Suc 0))) 0 (Num 0) (Num 3) True family)) 1) = Num 5"
proof -
  let ?r = "setTimelinePosition (updateTimeline (Suc (Suc 0))) 0 (Num 0) (Num 3) True family"
  have o: "ownedRegion (heap family) {1, 2} {1}" by code_simp
  have p: "0 \<notin> {1, 2::nat}" by simp
  have c: "set (children (heap family 0)) \<union> targets (heap family 0) \<subseteq> {1}" by code_simp
  have s: "\<forall>d\<in>{1}. mode (heap family d) = Some SYNCHED \<longrightarrow> d \<in> {1, 2::nat}" by simp
  have c1: "children (heap family 1) = [2]" "targets (heap family 1) = {2}" by code_simp+
  have rk: "ranked (heap family) {1, 2} familyRank" by code_simp
  have b: "\<forall>x\<in>{1, 2}. familyRank x < Suc (Suc 0)" by code_simp
  have ch: "children (heap (snd ?r) 0) = [1]" "mode (heap (snd ?r) 1) = Some SYNCHED"
    "synchOffset (heap (snd ?r) 1) = Num 3" "currentFrame (heap (snd ?r) 1) = Num 5"
    by code_simp+
  show ?thesis
    using parent_pass_resolves_synched_children [OF o p c s rk b, of "Num 0" "Num 3" True] c c1 ch by simp
qed

end
